theory Spec2Isabelle
  imports Complex_Main "HOL-Library.Log_Nat"
begin

section \<open>Receipt OCR parser: strings and numbers of the runtime\<close>

text \<open>
  The class \<open>ReceiptParser\<close> of \<open>combined.js\<close> and the functions it exports. JavaScript
  strings are modelled as \<open>string\<close>: one \<open>char\<close> per code unit, for the code units below
  256. Lengths, indices and edit distances are natural numbers.
\<close>

subsection \<open>String helpers of the runtime\<close>

definition code :: "char \<Rightarrow> int" where
  \<comment> \<open>the code unit as a number\<close>
  "code c = of_char c"

definition isSpace :: "char \<Rightarrow> bool" where
  \<comment> \<open>white space and line terminators, as \<open>trim\<close> and the class \<open>\s\<close> see them\<close>
  "isSpace c = (let n = code c in (9 \<le> n \<and> n \<le> 13) \<or> n = 32 \<or> n = 160)"

definition trim :: "string \<Rightarrow> string" where
  "trim s = rev (dropWhile isSpace (rev (dropWhile isSpace s)))"

definition toLowerChar :: "char \<Rightarrow> char" where
  "toLowerChar c =
     (let n = code c
      in if (65 \<le> n \<and> n \<le> 90) \<or> (192 \<le> n \<and> n \<le> 222 \<and> n \<noteq> 215)
         then char_of (n + 32) else c)"

definition toLowerCase :: "string \<Rightarrow> string" where
  "toLowerCase s = map toLowerChar s"

definition isDigit :: "char \<Rightarrow> bool" where
  "isDigit c = (let n = code c in 48 \<le> n \<and> n \<le> 57)"

definition digitVal :: "char \<Rightarrow> int" where
  "digitVal c = code c - 48"

definition dval :: "string \<Rightarrow> int" where
  \<comment> \<open>the number a run of decimal digits denotes; 0 for the empty run\<close>
  "dval ds = foldl (\<lambda>n c. 10 * n + digitVal c) 0 ds"

subsection \<open>Numbers\<close>

text \<open>
  A JavaScript number is \<open>NaN\<close>, one of the two infinities, or a finite value. A
  finite value is a rational, and the two zeros are one value. The operations of this
  section are exact; the rounding to the nearest double is defined in the section on
  double-precision arithmetic and applied where a result depends on it, in the
  confidence score.
\<close>

datatype jsnum = NaN | PInf | NInf | Fin rat

fun js_neg :: "jsnum \<Rightarrow> jsnum" where
  "js_neg NaN = NaN"
| "js_neg PInf = NInf"
| "js_neg NInf = PInf"
| "js_neg (Fin a) = Fin (- a)"

fun js_add :: "jsnum \<Rightarrow> jsnum \<Rightarrow> jsnum" where
  "js_add (Fin a) (Fin b) = Fin (a + b)"
| "js_add NaN _ = NaN"
| "js_add _ NaN = NaN"
| "js_add PInf NInf = NaN"
| "js_add NInf PInf = NaN"
| "js_add PInf _ = PInf"
| "js_add _ PInf = PInf"
| "js_add NInf _ = NInf"
| "js_add _ NInf = NInf"

definition js_sub :: "jsnum \<Rightarrow> jsnum \<Rightarrow> jsnum" where
  "js_sub a b = js_add a (js_neg b)"

definition js_sign :: "jsnum \<Rightarrow> int" where
  \<comment> \<open>1, 0 or -1; only used on numbers that are not \<open>NaN\<close>\<close>
  "js_sign a = (case a of NaN \<Rightarrow> 0 | PInf \<Rightarrow> 1 | NInf \<Rightarrow> - 1
                | Fin r \<Rightarrow> (if 0 < r then 1 else if r < 0 then - 1 else 0))"

definition js_inf :: "int \<Rightarrow> jsnum" where
  "js_inf s = (if 0 < s then PInf else if s < 0 then NInf else NaN)"

fun js_mul :: "jsnum \<Rightarrow> jsnum \<Rightarrow> jsnum" where
  "js_mul (Fin a) (Fin b) = Fin (a * b)"
| "js_mul NaN _ = NaN"
| "js_mul _ NaN = NaN"
| "js_mul a b = js_inf (js_sign a * js_sign b)"

fun js_div :: "jsnum \<Rightarrow> jsnum \<Rightarrow> jsnum" where
  "js_div (Fin a) (Fin b) = (if b = 0 then js_inf (js_sign (Fin a)) else Fin (a / b))"
| "js_div NaN _ = NaN"
| "js_div _ NaN = NaN"
| "js_div (Fin a) _ = Fin 0"
| "js_div a (Fin b) = js_inf (js_sign a * (if b < 0 then - 1 else 1))"
| "js_div _ _ = NaN"

fun js_lt :: "jsnum \<Rightarrow> jsnum \<Rightarrow> bool" where
  "js_lt (Fin a) (Fin b) = (a < b)"
| "js_lt NaN _ = False"
| "js_lt _ NaN = False"
| "js_lt NInf b = (b \<noteq> NInf)"
| "js_lt a PInf = (a \<noteq> PInf)"
| "js_lt _ _ = False"

definition js_eq :: "jsnum \<Rightarrow> jsnum \<Rightarrow> bool" where
  \<comment> \<open>\<open>===\<close> on numbers\<close>
  "js_eq a b = (a \<noteq> NaN \<and> a = b)"

definition js_le :: "jsnum \<Rightarrow> jsnum \<Rightarrow> bool" where
  "js_le a b = (js_lt a b \<or> js_eq a b)"

definition js_gt :: "jsnum \<Rightarrow> jsnum \<Rightarrow> bool" where
  "js_gt a b = js_lt b a"

definition js_ge :: "jsnum \<Rightarrow> jsnum \<Rightarrow> bool" where
  "js_ge a b = js_le b a"

definition js_abs :: "jsnum \<Rightarrow> jsnum" where
  "js_abs a = (case a of NaN \<Rightarrow> NaN | PInf \<Rightarrow> PInf | NInf \<Rightarrow> PInf | Fin r \<Rightarrow> Fin \<bar>r\<bar>)"

definition js_round :: "jsnum \<Rightarrow> jsnum" where
  \<comment> \<open>\<open>Math.round\<close>: the nearest integer, halves towards plus infinity\<close>
  "js_round a = (case a of Fin r \<Rightarrow> Fin (of_int \<lfloor>r + 1 / 2\<rfloor>) | _ \<Rightarrow> a)"

definition js_max2 :: "jsnum \<Rightarrow> jsnum \<Rightarrow> jsnum" where
  "js_max2 a b = (if a = NaN \<or> b = NaN then NaN else if js_lt a b then b else a)"

definition js_max :: "jsnum list \<Rightarrow> jsnum" where
  \<comment> \<open>\<open>Math.max(...xs)\<close>: minus infinity for no argument, \<open>NaN\<close> if one is\<close>
  "js_max xs = foldl js_max2 NInf xs"

definition truthy :: "jsnum \<Rightarrow> bool" where
  "truthy a = (a \<noteq> NaN \<and> a \<noteq> Fin 0)"

definition js_or :: "jsnum \<Rightarrow> jsnum \<Rightarrow> jsnum" where
  \<comment> \<open>\<open>a || b\<close> on numbers\<close>
  "js_or a b = (if truthy a then a else b)"

definition isNaN :: "jsnum \<Rightarrow> bool" where
  "isNaN a = (a = NaN)"

definition finval :: "jsnum \<Rightarrow> rat" where
  \<comment> \<open>the value of a finite number (0 otherwise); used in statements only\<close>
  "finval a = (case a of Fin r \<Rightarrow> r | _ \<Rightarrow> 0)"

subsection \<open>parseFloat\<close>

text \<open>
  \<open>parseFloat\<close> skips leading white space and reads the longest prefix that is a decimal
  literal: an optional sign, then \<open>Infinity\<close>, or digits with an optional fraction and an
  optional exponent. Without such a prefix the result is \<open>NaN\<close>.
\<close>

definition scale10 :: "rat \<Rightarrow> int \<Rightarrow> rat" where
  "scale10 x e = (if 0 \<le> e then x * 10 ^ nat e else x / 10 ^ nat (- e))"

definition decval :: "string \<Rightarrow> string \<Rightarrow> rat" where
  \<comment> \<open>the value of the integer digits \<open>ip\<close> followed by the fraction digits \<open>fp\<close>\<close>
  "decval ip fp = of_int (dval ip) + of_int (dval fp) / 10 ^ length fp"

definition exponentPart :: "string \<Rightarrow> int" where
  "exponentPart s =
     (case s of
        [] \<Rightarrow> 0
      | c # r \<Rightarrow>
          if c = CHR ''e'' \<or> c = CHR ''E'' then
            (case r of
               [] \<Rightarrow> 0
             | d # r' \<Rightarrow>
                 if d = CHR ''+'' then
                   (if takeWhile isDigit r' = [] then 0 else (dval (takeWhile isDigit r')))
                 else if d = CHR ''-'' then
                   (if takeWhile isDigit r' = [] then 0 else - (dval (takeWhile isDigit r')))
                 else (dval (takeWhile isDigit r)))
          else 0)"

definition parseUnsigned :: "string \<Rightarrow> jsnum" where
  "parseUnsigned s =
     (if take 8 s = ''Infinity'' then PInf
      else
        let ip = takeWhile isDigit s; r1 = dropWhile isDigit s
        in case r1 of
             [] \<Rightarrow> (if ip = [] then NaN else Fin (of_int (dval ip)))
           | c # r2 \<Rightarrow>
               if c = CHR ''.'' then
                 (let fp = takeWhile isDigit r2; r3 = dropWhile isDigit r2
                  in if ip = [] \<and> fp = [] then NaN
                     else Fin (scale10 (decval ip fp) (exponentPart r3)))
               else if ip = [] then NaN
               else Fin (scale10 (of_int (dval ip)) (exponentPart r1)))"

definition parseFloat :: "string \<Rightarrow> jsnum" where
  "parseFloat s =
     (case dropWhile isSpace s of
        [] \<Rightarrow> NaN
      | c # r \<Rightarrow>
          if c = CHR ''+'' then parseUnsigned r
          else if c = CHR ''-'' then js_neg (parseUnsigned r)
          else parseUnsigned (c # r))"

subsection \<open>parsePrice\<close>

definition isCurrency :: "char \<Rightarrow> bool" where
  \<comment> \<open>the class of the dollar, euro and pound signs; the euro sign is a code unit above
     255 and has no \<open>char\<close>\<close>
  "isCurrency c = (c = CHR ''$'' \<or> c = CHR 0xA3)"

definition isSep :: "char \<Rightarrow> bool" where
  "isSep c = (c = CHR ''.'' \<or> c = CHR '','')"

fun splitSep :: "string \<Rightarrow> string list" where
  \<comment> \<open>\<open>split\<close> on every dot or comma; never empty\<close>
  "splitSep [] = [[]]"
| "splitSep (c # cs) =
     (if isSep c then [] # splitSep cs
      else (case splitSep cs of [] \<Rightarrow> [[c]] | p # ps \<Rightarrow> (c # p) # ps))"

definition stripCurrency :: "string \<Rightarrow> string" where
  \<comment> \<open>removes every currency sign and white-space character\<close>
  "stripCurrency s = filter (\<lambda>c. \<not> (isCurrency c \<or> isSpace c)) s"

definition normalizeSeparators :: "string \<Rightarrow> string" where
  \<comment> \<open>the value of \<open>clean\<close> when \<open>parseFloat\<close> is called\<close>
  "normalizeSeparators priceStr =
     (let clean = stripCurrency priceStr;
          parts = splitSep clean
      in if length parts > 2 then concat (butlast parts) @ ''.'' @ last parts
         else if length parts = 2 then
           (let firstPart = parts ! 0; secondPart = parts ! 1
            in if length secondPart = 2 then firstPart @ ''.'' @ secondPart
               else if length secondPart = 1 then firstPart @ ''.'' @ secondPart @ ''0''
               else if length secondPart > 2 then firstPart @ secondPart
               else firstPart @ ''.'' @ secondPart)
         else clean)"

definition parsePrice :: "string \<Rightarrow> jsnum" where
  "parsePrice priceStr =
     (if priceStr = [] then Fin 0
      else
        let value = parseFloat (normalizeSeparators priceStr)
        in if isNaN value then Fin 0 else value)"

section \<open>Regular expressions of the runtime\<close>

text \<open>
  The parser is driven by regular expressions. They are modelled by their syntax trees
  and a backtracking matcher with continuations, which tries the alternatives in the
  order of the runtime's matcher and reports the first match. No pattern of the parser
  has a back reference, a look-around, or a capture group inside a repetition that
  iterates more than once.
\<close>

text \<open>
  Characters are compared by their codes. With the flag \<open>i\<close> the runtime compares the
  upper-case forms; among the code units below 256 two differ in case exactly when
  \<open>lowerCode\<close> or \<open>upperCode\<close> maps one to the other.
\<close>

definition lowerCode :: "int \<Rightarrow> int" where
  "lowerCode n =
     (if (65 \<le> n \<and> n \<le> 90) \<or> (192 \<le> n \<and> n \<le> 222 \<and> n \<noteq> 215) then n + 32 else n)"

definition upperCode :: "int \<Rightarrow> int" where
  "upperCode n =
     (if (97 \<le> n \<and> n \<le> 122) \<or> (224 \<le> n \<and> n \<le> 254 \<and> n \<noteq> 247) then n - 32 else n)"

definition toUpperChar :: "char \<Rightarrow> char" where
  "toUpperChar c =
     (let n = code c
      in if (97 \<le> n \<and> n \<le> 122) \<or> (224 \<le> n \<and> n \<le> 254 \<and> n \<noteq> 247)
         then char_of (n - 32) else c)"

definition isWordCode :: "int \<Rightarrow> bool" where
  "isWordCode n =
     ((97 \<le> n \<and> n \<le> 122) \<or> (65 \<le> n \<and> n \<le> 90) \<or> (48 \<le> n \<and> n \<le> 57) \<or> n = 95)"

definition isWordChar :: "char \<Rightarrow> bool" where
  "isWordChar c = isWordCode (code c)"

datatype citem =
    CChar char          \<comment> \<open>one character\<close>
  | CRange char char    \<comment> \<open>a range like \<open>a-z\<close>\<close>
  | CDigit              \<comment> \<open>\<open>\d\<close>\<close>
  | CSpace              \<comment> \<open>\<open>\s\<close>\<close>
  | CWord               \<comment> \<open>\<open>\w\<close>\<close>
  | CNonWord            \<comment> \<open>\<open>\W\<close>\<close>

fun item_ok :: "citem \<Rightarrow> int \<Rightarrow> bool" where
  \<comment> \<open>does the character with code \<open>n\<close> belong to the class item?\<close>
  "item_ok (CChar x) n = (n = code x)"
| "item_ok (CRange a b) n = (code a \<le> n \<and> n \<le> code b)"
| "item_ok CDigit n = (48 \<le> n \<and> n \<le> 57)"
| "item_ok CSpace n = ((9 \<le> n \<and> n \<le> 13) \<or> n = 32 \<or> n = 160)"
| "item_ok CWord n = isWordCode n"
| "item_ok CNonWord n = (\<not> isWordCode n)"

definition class_ok :: "bool \<Rightarrow> citem list \<Rightarrow> char \<Rightarrow> bool" where
  \<comment> \<open>with the flag \<open>i\<close> a character matches if it or its other case does\<close>
  "class_ok ci items c =
     (let n = code c; l = lowerCode n; u = upperCode n
      in list_ex (\<lambda>it. if item_ok it n then True
                        else if ci then item_ok it l \<or> item_ok it u else False) items)"

datatype rx =
    Set "citem list"               \<comment> \<open>a character or a class \<open>[...]\<close>\<close>
  | Dot                            \<comment> \<open>any character but a line terminator\<close>
  | Bol                            \<comment> \<open>\<open>^\<close>\<close>
  | Eol                            \<comment> \<open>\<open>$\<close>\<close>
  | WordB                          \<comment> \<open>\<open>\b\<close>\<close>
  | Eps
  | Seq rx rx
  | Alt rx rx
  | Rep bool nat "nat option" rx   \<comment> \<open>greedy?, least and greatest number of iterations\<close>
  | Grp nat rx                     \<comment> \<open>capture group with its number\<close>

text \<open>
  A matcher state: the position, the character before it, the rest of the input, and
  the captures so far (the latest first).
\<close>

type_synonym mstate = "nat \<times> char option \<times> string \<times> (nat \<times> string) list"

definition rest_len :: "mstate \<Rightarrow> nat" where
  "rest_len st = (case st of (pos, prev, rest, caps) \<Rightarrow> length rest)"

definition dec_max :: "nat option \<Rightarrow> nat option" where
  "dec_max mx = (case mx of None \<Rightarrow> None | Some n \<Rightarrow> Some (n - 1))"

definition isWordOpt :: "char option \<Rightarrow> bool" where
  "isWordOpt p = (case p of None \<Rightarrow> False | Some c \<Rightarrow> isWordChar c)"

fun rx_rank :: "rx \<Rightarrow> nat" where
  "rx_rank (Seq a b) = Suc (rx_rank a + rx_rank b)"
| "rx_rank (Alt a b) = Suc (rx_rank a + rx_rank b)"
| "rx_rank (Rep g mn mx a) = Suc (rx_rank a)"
| "rx_rank (Grp k a) = Suc (rx_rank a)"
| "rx_rank _ = 0"

fun rx_min :: "rx \<Rightarrow> nat" where
  "rx_min (Rep g mn mx a) = mn"
| "rx_min _ = 0"

text \<open>
  \<open>rmatch ci r st k\<close> matches \<open>r\<close> at the state \<open>st\<close> and hands every state it can end
  in to the continuation \<open>k\<close>, in the runtime's order, until \<open>k\<close> succeeds. A repetition
  that has done its least number of iterations gives up an iteration that consumed
  nothing.
\<close>

function rmatch :: "bool \<Rightarrow> rx \<Rightarrow> mstate \<Rightarrow> (mstate \<Rightarrow> mstate option) \<Rightarrow> mstate option" where
  "rmatch ci (Set items) st k =
     (case st of (pos, prev, rest, caps) \<Rightarrow>
        (case rest of
           [] \<Rightarrow> None
         | c # cs \<Rightarrow> if class_ok ci items c then k (Suc pos, Some c, cs, caps) else None))"
| "rmatch ci Dot st k =
     (case st of (pos, prev, rest, caps) \<Rightarrow>
        (case rest of
           [] \<Rightarrow> None
         | c # cs \<Rightarrow> if c = CHR 0x0A \<or> c = CHR 0x0D then None else k (Suc pos, Some c, cs, caps)))"
| "rmatch ci Bol st k = (case st of (pos, prev, rest, caps) \<Rightarrow> if pos = 0 then k st else None)"
| "rmatch ci Eol st k = (case st of (pos, prev, rest, caps) \<Rightarrow> if rest = [] then k st else None)"
| "rmatch ci WordB st k =
     (case st of (pos, prev, rest, caps) \<Rightarrow>
        if isWordOpt prev \<noteq> isWordOpt (case rest of [] \<Rightarrow> None | c # cs \<Rightarrow> Some c)
        then k st else None)"
| "rmatch ci Eps st k = k st"
| "rmatch ci (Seq a b) st k = rmatch ci a st (\<lambda>st'. rmatch ci b st' k)"
| "rmatch ci (Alt a b) st k =
     (case rmatch ci a st k of Some x \<Rightarrow> Some x | None \<Rightarrow> rmatch ci b st k)"
| "rmatch ci (Rep g mn mx a) st k =
     (if mx = Some 0 then k st
      else if 0 < mn then
        rmatch ci a st (\<lambda>st'. rmatch ci (Rep g (mn - 1) (dec_max mx) a) st' k)
      else if g then
        (case rmatch ci a st
                (\<lambda>st'. if rest_len st' < rest_len st
                       then rmatch ci (Rep g 0 (dec_max mx) a) st' k else None) of
           Some x \<Rightarrow> Some x
         | None \<Rightarrow> k st)
      else
        (case k st of
           Some x \<Rightarrow> Some x
         | None \<Rightarrow>
             rmatch ci a st
               (\<lambda>st'. if rest_len st' < rest_len st
                      then rmatch ci (Rep g 0 (dec_max mx) a) st' k else None)))"
| "rmatch ci (Grp n a) st k =
     rmatch ci a st
       (\<lambda>st'. case st of (pos, prev, rest, caps) \<Rightarrow>
              (case st' of (pos', prev', rest', caps') \<Rightarrow>
                 k (pos', prev', rest', (n, take (pos' - pos) rest) # caps')))"
  by pat_completeness auto
termination
  by (relation "(\<lambda>(ci, r, st, k). rx_rank r) <*mlex*> (\<lambda>(ci, r, st, k). rx_min r) <*mlex*>
                measure (\<lambda>(ci, r, st, k). rest_len st)")
     (auto simp: wf_mlex mlex_less mlex_leq)

text \<open>
  A match result: where the match starts, where it ends, and the captures. \<open>rx_exec\<close>
  tries the start positions from the left, as \<open>exec\<close>, \<open>match\<close> and \<open>test\<close> do for a
  pattern without the flag \<open>g\<close>.
\<close>

type_synonym rmatch_result = "nat \<times> nat \<times> (nat \<times> string) list"

fun exec_from :: "bool \<Rightarrow> rx \<Rightarrow> nat \<Rightarrow> char option \<Rightarrow> string \<Rightarrow> rmatch_result option" where
  "exec_from ci r pos prev [] =
     (case rmatch ci r (pos, prev, [], []) Some of
        None \<Rightarrow> None
      | Some (pos', prev', rest', caps') \<Rightarrow> Some (pos, pos', caps'))"
| "exec_from ci r pos prev (c # cs) =
     (case rmatch ci r (pos, prev, c # cs, []) Some of
        None \<Rightarrow> exec_from ci r (Suc pos) (Some c) cs
      | Some (pos', prev', rest', caps') \<Rightarrow> Some (pos, pos', caps'))"

definition rx_exec :: "bool \<Rightarrow> rx \<Rightarrow> string \<Rightarrow> rmatch_result option" where
  "rx_exec ci r s = exec_from ci r 0 None s"

definition rx_test :: "bool \<Rightarrow> rx \<Rightarrow> string \<Rightarrow> bool" where
  "rx_test ci r s = (rx_exec ci r s \<noteq> None)"

definition rx_group :: "rmatch_result \<Rightarrow> nat \<Rightarrow> string option" where
  \<comment> \<open>\<open>m[k]\<close> for \<open>k > 0\<close>; \<open>None\<close> is \<open>undefined\<close>\<close>
  "rx_group m k = (case m of (start, fin, caps) \<Rightarrow> map_of caps k)"

definition whole :: "string \<Rightarrow> rmatch_result \<Rightarrow> string" where
  \<comment> \<open>\<open>m[0]\<close>\<close>
  "whole s m = (case m of (start, fin, caps) \<Rightarrow> take (fin - start) (drop start s))"

definition remove_first :: "bool \<Rightarrow> rx \<Rightarrow> string \<Rightarrow> string" where
  \<comment> \<open>\<open>s.replace(r, '')\<close> for a pattern without the flag \<open>g\<close>\<close>
  "remove_first ci r s =
     (case rx_exec ci r s of
        None \<Rightarrow> s
      | Some (start, fin, caps) \<Rightarrow> take start s @ drop fin s)"

subsection \<open>Writing patterns\<close>

definition ch :: "char \<Rightarrow> rx" where
  "ch c = Set [CChar c]"

definition lit :: "string \<Rightarrow> rx" where
  "lit s = foldr (\<lambda>c r. Seq (ch c) r) s Eps"

definition seqs :: "rx list \<Rightarrow> rx" where
  "seqs rs = foldr Seq rs Eps"

fun alts :: "rx list \<Rightarrow> rx" where
  "alts [] = Eps"
| "alts [r] = r"
| "alts (r # rs) = Alt r (alts rs)"

definition opt :: "rx \<Rightarrow> rx" where
  "opt r = Rep True 0 (Some 1) r"

definition star :: "rx \<Rightarrow> rx" where
  "star r = Rep True 0 None r"

definition plus :: "rx \<Rightarrow> rx" where
  "plus r = Rep True 1 None r"

definition plus_lazy :: "rx \<Rightarrow> rx" where
  "plus_lazy r = Rep False 1 None r"

definition digit :: rx where
  "digit = Set [CDigit]"

definition space :: rx where
  "space = Set [CSpace]"

section \<open>Fuzzy matching\<close>

subsection \<open>levenshteinDistance\<close>

text \<open>
  The table \<open>dp\<close> has \<open>m + 1\<close> rows of \<open>n + 1\<close> cells. The two initialising loops and
  the nested filling loop are folds over the index ranges of the source.
\<close>

definition dp_set :: "nat \<Rightarrow> nat \<Rightarrow> nat \<Rightarrow> nat list list \<Rightarrow> nat list list" where
  \<comment> \<open>\<open>dp[i][j] = v\<close>\<close>
  "dp_set i j v dp = dp[i := (dp ! i)[j := v]]"

definition dp_init :: "nat \<Rightarrow> nat \<Rightarrow> nat list list" where
  "dp_init m n =
     fold (\<lambda>j dp. dp_set 0 j j dp) [0..<n + 1]
       (fold (\<lambda>i dp. dp_set i 0 i dp) [0..<m + 1]
          (replicate (m + 1) (replicate (n + 1) 0)))"

definition dp_cell :: "'a list \<Rightarrow> 'a list \<Rightarrow> nat \<Rightarrow> nat \<Rightarrow> nat list list \<Rightarrow> nat list list" where
  "dp_cell str1 str2 i j dp =
     (if str1 ! (i - 1) = str2 ! (j - 1)
      then dp_set i j (dp ! (i - 1) ! (j - 1)) dp
      else dp_set i j
             (min (dp ! (i - 1) ! j + 1)
                (min (dp ! i ! (j - 1) + 1) (dp ! (i - 1) ! (j - 1) + 1))) dp)"

definition dp_row :: "'a list \<Rightarrow> 'a list \<Rightarrow> nat \<Rightarrow> nat list list \<Rightarrow> nat list list" where
  "dp_row str1 str2 i dp = fold (\<lambda>j. dp_cell str1 str2 i j) [1..<length str2 + 1] dp"

definition dp_fill :: "'a list \<Rightarrow> 'a list \<Rightarrow> nat list list" where
  "dp_fill str1 str2 =
     fold (\<lambda>i. dp_row str1 str2 i) [1..<length str1 + 1]
       (dp_init (length str1) (length str2))"

definition levenshteinDistance :: "'a list \<Rightarrow> 'a list \<Rightarrow> nat" where
  "levenshteinDistance str1 str2 = dp_fill str1 str2 ! length str1 ! length str2"

subsection \<open>calculateSimilarity\<close>

definition calculateSimilarity :: "string \<Rightarrow> string \<Rightarrow> rat" where
  "calculateSimilarity str1 str2 =
     (let s1 = trim (toLowerCase str1);
          s2 = trim (toLowerCase str2)
      in if s1 = s2 then 1
         else let maxLength = max (length s1) (length s2)
              in if maxLength = 0 then 1
                 else 1 - of_nat (levenshteinDistance s1 s2) / of_nat maxLength)"

subsection \<open>The edit-distance recurrence and the table invariant\<close>

text \<open>
  \<open>lev a b i j\<close> is the recurrence the table implements, on the prefixes of length
  \<open>i\<close> and \<open>j\<close>; \<open>filled\<close> says which cells of the table already hold it.
\<close>

fun lev :: "'a list \<Rightarrow> 'a list \<Rightarrow> nat \<Rightarrow> nat \<Rightarrow> nat" where
  "lev a b 0 j = j"
| "lev a b (Suc i) 0 = Suc i"
| "lev a b (Suc i) (Suc j) =
     (if a ! i = b ! j then lev a b i j
      else min (lev a b i (Suc j) + 1) (min (lev a b (Suc i) j + 1) (lev a b i j + 1)))"

definition shape :: "nat \<Rightarrow> nat \<Rightarrow> nat list list \<Rightarrow> bool" where
  "shape m n dp \<longleftrightarrow> length dp = Suc m \<and> (\<forall>x\<le>m. length (dp ! x) = Suc n)"

definition filled :: "'a list \<Rightarrow> 'a list \<Rightarrow> nat \<Rightarrow> nat \<Rightarrow> nat list list \<Rightarrow> bool" where
  "filled a b i j dp \<longleftrightarrow>
     shape (length a) (length b) dp \<and>
     (\<forall>x y. x \<le> length a \<longrightarrow> y \<le> length b \<longrightarrow>
        (x = 0 \<or> y = 0 \<or> x < i \<or> (x = i \<and> y < j)) \<longrightarrow> dp ! x ! y = lev a b x y)"

section \<open>Double-precision arithmetic\<close>

text \<open>
  The confidence score compares a difference with a tolerance and rounds to two
  decimals, so that the last bit of a sum or a product decides the result. Its
  arithmetic is therefore modelled as the runtime performs it: every number is a double,
  and each sum, difference, product and quotient is the exact result rounded to the
  nearest double, ties to the even mantissa, overflowing to an infinity. A finite double
  is a rational \<open>m * 2 ^ e\<close> with \<open>m < 2 ^ 53\<close> and \<open>- 1074 \<le> e \<le> 971\<close>.
\<close>

definition rne :: "rat \<Rightarrow> int" where
  \<comment> \<open>the nearest integer, halves to the even one\<close>
  "rne q = (let f = \<lfloor>q\<rfloor>; r = q - of_int f
            in if r < 1 / 2 then f else if 1 / 2 < r then f + 1
               else if even f then f else f + 1)"

definition binade :: "rat \<Rightarrow> int" where
  \<comment> \<open>for \<open>x > 0\<close>: the exponent \<open>e\<close> with \<open>2 ^ e \<le> x < 2 ^ (e + 1)\<close>, and \<open>- 1022\<close> below
     the normal range\<close>
  "binade x =
     (case quotient_of x of (p, q) \<Rightarrow>
        let d = bitlen p - bitlen q;
            e = (if 2 powi d \<le> x then d else d - 1)
        in max e (- 1022))"

definition toDouble :: "rat \<Rightarrow> jsnum" where
  \<comment> \<open>the double nearest to \<open>x\<close>: a multiple of the unit in the last place of its binade\<close>
  "toDouble x =
     (if x = 0 then Fin 0
      else
        let a = \<bar>x\<bar>;
            u = 2 powi (binade a - 52);
            y = of_int (rne (a / u)) * u
        in if 1023 < binade y then (if 0 < x then PInf else NInf)
           else Fin (if 0 < x then y else - y))"

definition dbl :: "jsnum \<Rightarrow> jsnum" where
  \<comment> \<open>a number as the runtime holds it\<close>
  "dbl a = (case a of Fin r \<Rightarrow> toDouble r | _ \<Rightarrow> a)"

definition decimal :: "rat \<Rightarrow> jsnum" where
  \<comment> \<open>a decimal literal of the program text\<close>
  "decimal r = toDouble r"

definition d_add :: "jsnum \<Rightarrow> jsnum \<Rightarrow> jsnum" where
  "d_add a b = dbl (js_add a b)"

definition d_sub :: "jsnum \<Rightarrow> jsnum \<Rightarrow> jsnum" where
  "d_sub a b = dbl (js_sub a b)"

definition d_mul :: "jsnum \<Rightarrow> jsnum \<Rightarrow> jsnum" where
  "d_mul a b = dbl (js_mul a b)"

definition d_div :: "jsnum \<Rightarrow> jsnum \<Rightarrow> jsnum" where
  "d_div a b = dbl (js_div a b)"

section \<open>Items, summary and the confidence score\<close>

record item =
  name :: string
  price :: jsnum
  quantity :: jsnum
  raw :: string
  confidence :: jsnum

record summary =
  tax :: jsnum
  tip :: jsnum
  total :: jsnum
  subtotal :: jsnum

subsection \<open>calculateConfidence\<close>

text \<open>
  The arithmetic of this function is that of doubles. A field is read through \<open>dbl\<close>: the
  number it holds is the double nearest to the value of the model (the value itself
  when that is a double).
\<close>

definition totalConfidence :: "jsnum \<Rightarrow> summary \<Rightarrow> jsnum" where
  \<comment> \<open>the value of \<open>totalConfidence\<close> after the check of the totals\<close>
  "totalConfidence itemsTotal s =
     (if js_gt (dbl (total s)) (Fin 0) then
        (let calculatedTotal = d_add (d_add itemsTotal (dbl (tax s))) (dbl (tip s));
             diff = js_abs (d_sub calculatedTotal (dbl (total s)));
             tolerance = d_mul (dbl (total s)) (decimal (5 / 100))
         in if js_le diff tolerance then Fin 1
            else if js_le diff (d_mul tolerance (Fin 2)) then decimal (8 / 10)
            else decimal (5 / 10))
      else Fin 1)"

definition confidenceSum :: "item list \<Rightarrow> jsnum" where
  \<comment> \<open>\<open>items.reduce((sum, item) => sum + (item.confidence || 0.5), 0)\<close>\<close>
  "confidenceSum items =
     foldl (\<lambda>sum it. d_add sum (js_or (dbl (confidence it)) (decimal (5 / 10)))) (Fin 0) items"

definition itemsTotal :: "item list \<Rightarrow> jsnum" where
  \<comment> \<open>\<open>items.reduce((sum, item) => sum + (item.price * item.quantity), 0)\<close>\<close>
  "itemsTotal items =
     foldl (\<lambda>sum it. d_add sum (d_mul (dbl (price it)) (dbl (quantity it)))) (Fin 0) items"

definition calculateConfidence :: "item list \<Rightarrow> summary \<Rightarrow> jsnum" where
  "calculateConfidence items s =
     (if length items = 0 then Fin 0
      else
        let itemConfidence = d_div (confidenceSum items) (Fin (of_nat (length items)))
        in d_div
             (js_round
                (d_mul
                   (d_add (d_mul itemConfidence (decimal (6 / 10)))
                      (d_mul (totalConfidence (itemsTotal items) s) (decimal (4 / 10))))
                   (Fin 100)))
             (Fin 100))"

subsection \<open>The score as the specification words it\<close>

text \<open>
  The sentence of the specification, in the arithmetic of the runtime: sums run from
  left to right, and every operation rounds to the nearest double. An item is the
  triple of its price, its quantity and its confidence. \<open>confidence_as_stated\<close> follows
  the sentence to the letter: the mean of the item confidences with weight 0.6, and a
  consistency term with weight 0.4 that compares the computed total with the declared
  one in every case. \<open>confidence_amended\<close> counts a confidence of 0 as 0.5 and takes the
  consistency term as 1 when the declared total is not positive.
\<close>

definition mean :: "jsnum list \<Rightarrow> jsnum" where
  "mean xs = d_div (foldl d_add (Fin 0) xs) (Fin (of_nat (length xs)))"

definition round2 :: "jsnum \<Rightarrow> jsnum" where
  \<comment> \<open>rounded to two decimal places\<close>
  "round2 x = d_div (js_round (d_mul x (Fin 100))) (Fin 100)"

definition computedTotal :: "(jsnum \<times> jsnum \<times> jsnum) list \<Rightarrow> jsnum" where
  \<comment> \<open>the sum of price times quantity\<close>
  "computedTotal its = foldl d_add (Fin 0) (map (\<lambda>(p, q, c). d_mul p q) its)"

definition band :: "jsnum \<Rightarrow> jsnum \<Rightarrow> jsnum \<Rightarrow> jsnum \<Rightarrow> jsnum" where
  \<comment> \<open>1 within 5 percent of the total, 0.8 within twice that, 0.5 beyond\<close>
  "band computed tx tp tot =
     (let diff = js_abs (d_sub (d_add (d_add computed tx) tp) tot);
          tolerance = d_mul tot (decimal (5 / 100))
      in if js_le diff tolerance then Fin 1
         else if js_le diff (d_mul tolerance (Fin 2)) then decimal (8 / 10)
         else decimal (5 / 10))"

definition confidence_as_stated ::
  "(jsnum \<times> jsnum \<times> jsnum) list \<Rightarrow> jsnum \<Rightarrow> jsnum \<Rightarrow> jsnum \<Rightarrow> jsnum" where
  \<comment> \<open>the items, then tax, tip and total\<close>
  "confidence_as_stated its tx tp tot =
     (if its = [] then Fin 0
      else round2
             (d_add (d_mul (mean (map (\<lambda>(p, q, c). c) its)) (decimal (6 / 10)))
                (d_mul (band (computedTotal its) tx tp tot) (decimal (4 / 10)))))"

definition confidence_amended ::
  "(jsnum \<times> jsnum \<times> jsnum) list \<Rightarrow> jsnum \<Rightarrow> jsnum \<Rightarrow> jsnum \<Rightarrow> jsnum" where
  "confidence_amended its tx tp tot =
     (if its = [] then Fin 0
      else round2
             (d_add (d_mul (mean (map (\<lambda>(p, q, c). js_or c (decimal (5 / 10))) its)) (decimal (6 / 10)))
                (d_mul (if js_gt tot (Fin 0) then band (computedTotal its) tx tp tot else Fin 1)
                   (decimal (4 / 10)))))"

definition numbers :: "item \<Rightarrow> jsnum \<times> jsnum \<times> jsnum" where
  \<comment> \<open>price, quantity and confidence of an item, as the runtime holds them\<close>
  "numbers it = (dbl (price it), dbl (quantity it), dbl (confidence it))"

section \<open>Merging similar items\<close>

record merged_item =
  m_name :: string
  m_price :: jsnum
  m_quantity :: jsnum
  m_confidence :: jsnum
  mergedFrom :: "string list option"

definition mergeGroup :: "item list \<Rightarrow> merged_item" where
  \<comment> \<open>the object \<open>mergedItem\<close> built from a group\<close>
  "mergeGroup grp =
     \<lparr>m_name = name (grp ! 0),
      m_price = js_div (foldl (\<lambda>sum it. js_add sum (price it)) (Fin 0) grp)
                  (Fin (of_nat (length grp))),
      m_quantity = foldl (\<lambda>sum it. js_add sum (quantity it)) (Fin 0) grp,
      m_confidence = js_mul (js_max (map confidence grp)) (Fin (95 / 100)),
      mergedFrom = (if length grp > 1 then Some (map raw grp) else None)\<rparr>"

definition similar :: "jsnum \<Rightarrow> item \<Rightarrow> item \<Rightarrow> bool" where
  \<comment> \<open>\<open>similarity >= similarityThreshold\<close>\<close>
  "similar thr current other = js_ge (Fin (calculateSimilarity (name current) (name other))) thr"

definition merge_inner ::
  "item list \<Rightarrow> jsnum \<Rightarrow> nat \<Rightarrow> nat \<Rightarrow> item list \<times> nat set \<Rightarrow> item list \<times> nat set" where
  \<comment> \<open>one round of the loop over \<open>j\<close>; the state is \<open>grp\<close> and \<open>used\<close>\<close>
  "merge_inner items thr i j st =
     (case st of (grp, used) \<Rightarrow>
        if j \<in> used then (grp, used)
        else if similar thr (items ! i) (items ! j) then (grp @ [items ! j], insert j used)
        else (grp, used))"

definition merge_outer ::
  "item list \<Rightarrow> jsnum \<Rightarrow> nat \<Rightarrow> merged_item list \<times> nat set \<Rightarrow> merged_item list \<times> nat set" where
  \<comment> \<open>one round of the loop over \<open>i\<close>; the state is \<open>merged\<close> and \<open>used\<close>\<close>
  "merge_outer items thr i st =
     (case st of (merged, used) \<Rightarrow>
        if i \<in> used then (merged, used)
        else
          (case fold (merge_inner items thr i) [i + 1..<length items] ([items ! i], insert i used) of
             (grp, used') \<Rightarrow> (merged @ [mergeGroup grp], used')))"

definition mergeSimilarItems :: "item list \<Rightarrow> jsnum \<Rightarrow> merged_item list" where
  "mergeSimilarItems items thr = fst (fold (merge_outer items thr) [0..<length items] ([], {}))"

subsection \<open>The greedy groups as the specification words them\<close>

text \<open>
  The first unassigned item seeds a group; every later unassigned item whose similarity
  to the seed meets the threshold joins it; the others stay unassigned.
\<close>

fun greedyGroups :: "jsnum \<Rightarrow> item list \<Rightarrow> item list list" where
  "greedyGroups thr [] = []"
| "greedyGroups thr (x # xs) =
     (x # filter (similar thr x) xs) # greedyGroups thr (filter (\<lambda>y. \<not> similar thr x y) xs)"

definition joiners :: "item list \<Rightarrow> jsnum \<Rightarrow> nat \<Rightarrow> nat set \<Rightarrow> nat list \<Rightarrow> nat list" where
  \<comment> \<open>the indices among \<open>js\<close> that are not used and similar to the item at \<open>i\<close>\<close>
  "joiners items thr i u js = filter (\<lambda>j. j \<notin> u \<and> similar thr (items ! i) (items ! j)) js"

section \<open>The receipt parser\<close>

subsection \<open>The patterns of the constructor\<close>

text \<open>
  Each pattern is written after its regular expression, given above it. The euro sign
  of the currency class is a code unit above 255 and has no \<open>char\<close>; the class keeps the
  dollar and the pound sign.
\<close>

definition currency :: rx where
  "currency = Set [CChar CHR ''$'', CChar (CHR 0xA3)]"

definition amount :: "nat \<Rightarrow> rx" where
  \<comment> \<open>the group \<open>(\d[\d,\.]+)\<close> with number \<open>k\<close>\<close>
  "amount k = Grp k (Seq digit (plus (Set [CDigit, CChar CHR '','', CChar CHR ''.''])))"

definition labelEnd :: rx where
  \<comment> \<open>\<open>[:\s]*[$...]?\<close>\<close>
  "labelEnd = Seq (star (Set [CChar CHR '':'', CSpace])) (opt currency)"

definition qtyMark :: rx where
  \<comment> \<open>\<open>[@x*]\<close> with the multiplication sign\<close>
  "qtyMark = Set [CChar CHR ''@'', CChar CHR ''x'', CChar (CHR 0xD7), CChar CHR ''*'']"

text \<open>\<^verbatim>\<open>price: /[$...]?\s*(\d{1,3}(?:[,\.]\d{3})*|\d+)(?:[\.,](\d{2}))?/\<close>\<close>

definition pat_price :: rx where
  "pat_price =
     seqs [opt currency, star space,
       Grp 1 (Alt (Seq (Rep True 1 (Some 3) digit)
                     (star (Seq (Set [CChar CHR '','', CChar CHR ''.'']) (Rep True 3 (Some 3) digit))))
                (plus digit)),
       opt (Seq (Set [CChar CHR ''.'', CChar CHR '','']) (Grp 2 (Rep True 2 (Some 2) digit)))]"

text \<open>\<^verbatim>\<open>quantity: /^(\d+)\s*[@x*]\s*|^@?\s*(\d+)\s*[:\-]?\s*|^qty[:\s]*(\d+)/i\<close>\<close>

definition pat_quantity :: rx where
  "pat_quantity =
     alts [seqs [Bol, Grp 1 (plus digit), star space, qtyMark, star space],
           seqs [Bol, opt (ch CHR ''@''), star space, Grp 2 (plus digit), star space,
                 opt (Set [CChar CHR '':'', CChar CHR ''-'']), star space],
           seqs [Bol, lit ''qty'', star (Set [CChar CHR '':'', CSpace]), Grp 3 (plus digit)]]"

text \<open>\<^verbatim>\<open>dottedItem: /^(.+?)[\.\s\-_]{3,}\s*[$...]?(\d[\d,\.]+)/i\<close>\<close>

definition pat_dottedItem :: rx where
  "pat_dottedItem =
     seqs [Bol, Grp 1 (plus_lazy Dot),
       Rep True 3 None (Set [CChar CHR ''.'', CSpace, CChar CHR ''-'', CChar CHR ''_'']),
       star space, opt currency, amount 2]"

text \<open>\<^verbatim>\<open>itemLine: /^(?:(\d+)\s*[@x*]\s*)?(.+?)(?:\s+[$...]?(\d[\d,\.]+)\s*$)/i\<close>\<close>

definition pat_itemLine :: rx where
  "pat_itemLine =
     seqs [Bol, opt (seqs [Grp 1 (plus digit), star space, qtyMark, star space]),
       Grp 2 (plus_lazy Dot),
       seqs [plus space, opt currency, amount 3, star space, Eol]]"

text \<open>\<^verbatim>\<open>subtotal: /^(?:sub[-\s]?total|subttl|before\s*tax|net|pre[-\s]?tax)[:\s]*[$...]?(\d[\d,\.]+)/i\<close>\<close>

definition pat_subtotal :: rx where
  "pat_subtotal =
     seqs [Bol,
       alts [seqs [lit ''sub'', opt (Set [CChar CHR ''-'', CSpace]), lit ''total''],
             lit ''subttl'',
             seqs [lit ''before'', star space, lit ''tax''],
             lit ''net'',
             seqs [lit ''pre'', opt (Set [CChar CHR ''-'', CSpace]), lit ''tax'']],
       labelEnd, amount 1]"

text \<open>\<^verbatim>\<open>tax: /^(?:tax|vat|gst|hst|sales\s*tax)(?:\s*\(?\d*[%\s)]*)?[:\s]*[$...]?(\d[\d,\.]+)/i\<close>\<close>

definition pat_tax :: rx where
  "pat_tax =
     seqs [Bol,
       alts [lit ''tax'', lit ''vat'', lit ''gst'', lit ''hst'',
             seqs [lit ''sales'', star space, lit ''tax'']],
       opt (seqs [star space, opt (ch CHR ''(''), star digit,
                  star (Set [CChar CHR ''%'', CSpace, CChar CHR '')''])]),
       labelEnd, amount 1]"

text \<open>\<^verbatim>\<open>tip: /^(?:tip|gratuity|service\s*charge)[:\s]*[$...]?(\d[\d,\.]+)/i\<close>\<close>

definition pat_tip :: rx where
  "pat_tip =
     seqs [Bol,
       alts [lit ''tip'', lit ''gratuity'', seqs [lit ''service'', star space, lit ''charge'']],
       labelEnd, amount 1]"

text \<open>\<^verbatim>\<open>total: /^(?:total|amount\s*due|balance\s*due|grand\s*total)[:\s]*[$...]?(\d[\d,\.]+)/i\<close>\<close>

definition pat_total :: rx where
  "pat_total =
     seqs [Bol,
       alts [lit ''total'',
             seqs [lit ''amount'', star space, lit ''due''],
             seqs [lit ''balance'', star space, lit ''due''],
             seqs [lit ''grand'', star space, lit ''total'']],
       labelEnd, amount 1]"

text \<open>
  \<^verbatim>\<open>date: /(\d{1,2}[\/\-\.]\d{1,2}[\/\-\.]\d{2,4}|\d{4}[\/\-\.]\d{1,2}[\/\-\.]\d{1,2}|\<close>
  \<^verbatim>\<open>(?:Jan|Feb|Mar|Apr|May|Jun|Jul|Aug|Sep|Oct|Nov|Dec)[a-z]*\.?\s*\d{1,2},?\s*\d{4})/i\<close>
\<close>

definition dateSep :: rx where
  "dateSep = Set [CChar CHR ''/'', CChar CHR ''-'', CChar CHR ''.'']"

definition pat_date :: rx where
  "pat_date =
     Grp 1
       (alts [seqs [Rep True 1 (Some 2) digit, dateSep, Rep True 1 (Some 2) digit, dateSep,
                    Rep True 2 (Some 4) digit],
              seqs [Rep True 4 (Some 4) digit, dateSep, Rep True 1 (Some 2) digit, dateSep,
                    Rep True 1 (Some 2) digit],
              seqs [alts (map lit [''Jan'', ''Feb'', ''Mar'', ''Apr'', ''May'', ''Jun'', ''Jul'',
                                   ''Aug'', ''Sep'', ''Oct'', ''Nov'', ''Dec'']),
                    star (Set [CRange CHR ''a'' CHR ''z'']), opt (ch CHR ''.''), star space,
                    Rep True 1 (Some 2) digit, opt (ch CHR '',''), star space,
                    Rep True 4 (Some 4) digit]])"

text \<open>
  \<^verbatim>\<open>merchant: /^[A-Z][A-Za-z0-9\s&'\-]+(?:LLC|Inc|Ltd|Corp|Restaurant|Cafe|Store|Shop|Market)?$/\<close>
\<close>

definition pat_merchant :: rx where
  "pat_merchant =
     seqs [Bol, Set [CRange CHR ''A'' CHR ''Z''],
       plus (Set [CRange CHR ''A'' CHR ''Z'', CRange CHR ''a'' CHR ''z'', CRange CHR ''0'' CHR ''9'',
                  CSpace, CChar CHR ''&'', CChar (CHR 0x27), CChar CHR ''-'']),
       opt (alts (map lit [''LLC'', ''Inc'', ''Ltd'', ''Corp'', ''Restaurant'', ''Cafe'', ''Store'',
                           ''Shop'', ''Market''])),
       Eol]"

text \<open>
  \<^verbatim>\<open>skip: /^(?:receipt|invoice|order|ticket|cashier|server|table|guest|thank|call|visit|\<close>
  \<^verbatim>\<open>www\.|http|tel|phone|fax|email|date\s*:)/i\<close>
\<close>

definition pat_skip :: rx where
  "pat_skip =
     seqs [Bol,
       alts [lit ''receipt'', lit ''invoice'', lit ''order'', lit ''ticket'', lit ''cashier'',
             lit ''server'', lit ''table'', lit ''guest'', lit ''thank'', lit ''call'',
             lit ''visit'', seqs [lit ''www'', ch CHR ''.''], lit ''http'', lit ''tel'',
             lit ''phone'', lit ''fax'', lit ''email'',
             seqs [lit ''date'', star space, ch CHR '':'']]]"

subsection \<open>The patterns written inside the methods\<close>

definition denylist :: "string list" where
  "denylist = [''total'', ''subtotal'', ''tax'', ''tip'', ''change'', ''cash'', ''credit'', ''debit'',
               ''card'', ''payment'', ''balance'', ''amount'', ''due'', ''check'', ''bill'', ''date'']"

definition streetTokens :: rx where
  \<comment> \<open>\<open>(main|street|st|ave|avenue|blvd|boulevard|road|rd|drive|dr|lane|ln|way|court|ct)\<close>\<close>
  "streetTokens =
     Grp 1 (alts (map lit [''main'', ''street'', ''st'', ''ave'', ''avenue'', ''blvd'', ''boulevard'',
                           ''road'', ''rd'', ''drive'', ''dr'', ''lane'', ''ln'', ''way'', ''court'',
                           ''ct'']))"

definition pat_onlyDigitsOrSpecial :: rx where
  \<comment> \<open>\<open>/^[\d\W]+$/\<close>\<close>
  "pat_onlyDigitsOrSpecial = seqs [Bol, plus (Set [CDigit, CNonWord]), Eol]"

definition pat_invalidWords :: rx where
  \<comment> \<open>\<open>/^(?:total|subtotal|...|date)$/i\<close>\<close>
  "pat_invalidWords = seqs [Bol, alts (map lit denylist), Eol]"

definition pat_addressLeading :: rx where
  \<comment> \<open>\<open>/^\d+\s+(main|...|ct)/i\<close>\<close>
  "pat_addressLeading = seqs [Bol, plus digit, plus space, streetTokens]"

definition pat_addressTrailing :: rx where
  \<comment> \<open>\<open>/^(main|...|ct)\s+\d+$/i\<close>\<close>
  "pat_addressTrailing = seqs [Bol, streetTokens, plus space, plus digit, Eol]"

definition pat_orderNumber :: rx where
  \<comment> \<open>\<open>/^(order|ticket|table|check|receipt)\s*#?\s*\d+/i\<close>\<close>
  "pat_orderNumber =
     seqs [Bol, Grp 1 (alts (map lit [''order'', ''ticket'', ''table'', ''check'', ''receipt''])),
       star space, opt (ch CHR ''#''), star space, plus digit]"

definition pat_streetStart :: rx where
  \<comment> \<open>\<open>/^(main|...|ct)\b/i\<close>\<close>
  "pat_streetStart = seqs [Bol, streetTokens, WordB]"

definition pat_atPrefix :: rx where
  \<comment> \<open>\<open>/^@\s*/\<close>\<close>
  "pat_atPrefix = seqs [Bol, ch CHR ''@'', star space]"

definition pat_qtyPrefix :: rx where
  \<comment> \<open>\<open>/^\d+\s*[@x*:]\s*/i\<close>\<close>
  "pat_qtyPrefix =
     seqs [Bol, plus digit, star space,
       Set [CChar CHR ''@'', CChar CHR ''x'', CChar (CHR 0xD7), CChar CHR ''*'', CChar CHR '':''],
       star space]"

definition pat_qtyWord :: rx where
  \<comment> \<open>\<open>/^qty[:\s]*\d+\s*/i\<close>\<close>
  "pat_qtyWord = seqs [Bol, lit ''qty'', star (Set [CChar CHR '':'', CSpace]), plus digit, star space]"

definition pat_numPrefix :: rx where
  \<comment> \<open>\<open>/^\d+\s+/\<close>\<close>
  "pat_numPrefix = seqs [Bol, plus digit, plus space]"

definition pat_datePrefix :: rx where
  \<comment> \<open>\<open>/^date\s*:\s*/i\<close>\<close>
  "pat_datePrefix = seqs [Bol, lit ''date'', star space, ch CHR '':'', star space]"

definition pat_spaces :: rx where
  \<comment> \<open>\<open>/\s+/g\<close>\<close>
  "pat_spaces = plus space"

definition pat_edgeDashes :: rx where
  \<comment> \<open>\<open>/^[\s\-]+|[\s\-]+$/g\<close>\<close>
  "pat_edgeDashes =
     Alt (Seq Bol (plus (Set [CSpace, CChar CHR ''-''])))
         (Seq (plus (Set [CSpace, CChar CHR ''-''])) Eol)"

definition pat_wordStart :: rx where
  \<comment> \<open>\<open>/\b\w/g\<close>\<close>
  "pat_wordStart = Seq WordB (Set [CWord])"

subsection \<open>Replacing every match\<close>

text \<open>
  \<open>s.replace(r, f)\<close> for a pattern with the flag \<open>g\<close>: the matches are found from left to
  right, each replaced by \<open>f\<close> of the matched text; after an empty match the search moves
  on by one character.
\<close>

function replace_from ::
  "bool \<Rightarrow> rx \<Rightarrow> (string \<Rightarrow> string) \<Rightarrow> nat \<Rightarrow> char option \<Rightarrow> string \<Rightarrow> string" where
  "replace_from ci r f pos prev rest =
     (case rmatch ci r (pos, prev, rest, []) Some of
        None \<Rightarrow>
          (case rest of
             [] \<Rightarrow> []
           | c # cs \<Rightarrow> c # replace_from ci r f (Suc pos) (Some c) cs)
      | Some (pos', prev', rest', caps') \<Rightarrow>
          if length rest' < length rest
          then f (take (pos' - pos) rest) @ replace_from ci r f pos' prev' rest'
          else
            (case rest of
               [] \<Rightarrow> f []
             | c # cs \<Rightarrow> f [] @ c # replace_from ci r f (Suc pos) (Some c) cs))"
  by pat_completeness auto
termination
  by (relation "measure (\<lambda>(ci, r, f, pos, prev, rest). length rest)") auto

definition replace_all :: "bool \<Rightarrow> rx \<Rightarrow> (string \<Rightarrow> string) \<Rightarrow> string \<Rightarrow> string" where
  "replace_all ci r f s = replace_from ci r f 0 None s"

subsection \<open>preprocessText\<close>

fun replaceCRLF :: "string \<Rightarrow> string" where
  \<comment> \<open>\<open>replace(/\r\n/g, '\n')\<close>\<close>
  "replaceCRLF [] = []"
| "replaceCRLF [c] = [c]"
| "replaceCRLF (c # d # cs) =
     (if c = CHR 0x0D \<and> d = CHR 0x0A then CHR 0x0A # replaceCRLF cs
      else c # replaceCRLF (d # cs))"

definition replaceCR :: "string \<Rightarrow> string" where
  \<comment> \<open>\<open>replace(/\r/g, '\n')\<close>\<close>
  "replaceCR s = map (\<lambda>c. if c = CHR 0x0D then CHR 0x0A else c) s"

fun splitLines :: "string \<Rightarrow> string list" where
  \<comment> \<open>\<open>split('\n')\<close>; never empty\<close>
  "splitLines [] = [[]]"
| "splitLines (c # cs) =
     (if c = CHR 0x0A then [] # splitLines cs
      else (case splitLines cs of [] \<Rightarrow> [[c]] | p # ps \<Rightarrow> (c # p) # ps))"

definition allLines :: "string \<Rightarrow> string list" where
  \<comment> \<open>the trimmed non-empty lines of the text, before the skip pattern is applied\<close>
  "allLines text = filter (\<lambda>line. length line > 0) (map trim (splitLines (replaceCR (replaceCRLF text))))"

definition preprocessText :: "string \<Rightarrow> string list" where
  "preprocessText text =
     filter (\<lambda>line. length line > 0 \<and> \<not> rx_test True pat_skip line)
       (map trim (splitLines (replaceCR (replaceCRLF text))))"

subsection \<open>parseInt, extractQuantity, removeQuantityFromName, cleanItemName\<close>

definition parseInt10 :: "string \<Rightarrow> jsnum" where
  \<comment> \<open>\<open>parseInt(s, 10)\<close>: leading white space, a sign, then the longest run of digits\<close>
  "parseInt10 s =
     (case dropWhile isSpace s of
        [] \<Rightarrow> NaN
      | c # r \<Rightarrow>
          if c = CHR ''-'' then
            (if takeWhile isDigit r = [] then NaN else Fin (- of_int (dval (takeWhile isDigit r))))
          else if c = CHR ''+'' then
            (if takeWhile isDigit r = [] then NaN else Fin (of_int (dval (takeWhile isDigit r))))
          else if takeWhile isDigit (c # r) = [] then NaN
          else Fin (of_int (dval (takeWhile isDigit (c # r)))))"

definition grp :: "rmatch_result \<Rightarrow> nat \<Rightarrow> string" where
  \<comment> \<open>the text of a group; the empty string stands for \<open>undefined\<close> too, which the
     source only tests for truth or hands to \<open>parsePrice\<close>\<close>
  "grp m k = (case rx_group m k of None \<Rightarrow> [] | Some s \<Rightarrow> s)"

definition extractQuantity :: "string \<Rightarrow> jsnum" where
  "extractQuantity text =
     (if text = [] then Fin 1
      else
        (case rx_exec True pat_quantity text of
           None \<Rightarrow> Fin 1
         | Some m \<Rightarrow>
             parseInt10 (if grp m 1 \<noteq> [] then grp m 1
                         else if grp m 2 \<noteq> [] then grp m 2 else grp m 3)))"

definition removeQuantityFromName :: "string \<Rightarrow> jsnum \<Rightarrow> string" where
  "removeQuantityFromName nm qty =
     (let n1 = remove_first False pat_atPrefix nm;
          n2 = (if js_gt qty (Fin 1)
                then remove_first False pat_numPrefix
                       (remove_first True pat_qtyWord (remove_first True pat_qtyPrefix n1))
                else n1)
      in trim n2)"

definition cleanItemName :: "string \<Rightarrow> string" where
  "cleanItemName nm =
     replace_all False pat_wordStart (map toUpperChar)
       (toLowerCase
          (trim
             (replace_all False pat_edgeDashes (\<lambda>m. [])
                (replace_all False pat_spaces (\<lambda>m. '' '') nm))))"

subsection \<open>isValidItemName\<close>

definition isValidItemName :: "string \<Rightarrow> bool" where
  "isValidItemName nm =
     (if nm = [] \<or> length nm < 2 then False
      else if rx_test False pat_onlyDigitsOrSpecial nm then False
      else if rx_test True pat_invalidWords (trim nm) then False
      else if rx_test True pat_addressLeading nm then False
      else if rx_test True pat_addressTrailing nm then False
      else if rx_test True pat_orderNumber nm then False
      else True)"

subsection \<open>categorizeLine\<close>

datatype classified =
    Item string jsnum jsnum jsnum   \<comment> \<open>name, price, quantity, confidence\<close>
  | Tax jsnum
  | Tip jsnum
  | Total jsnum
  | Subtotal jsnum
  | Unknown

fun isPrefixOf :: "string \<Rightarrow> string \<Rightarrow> bool" where
  "isPrefixOf [] s = True"
| "isPrefixOf (c # cs) [] = False"
| "isPrefixOf (c # cs) (d # ds) = (c = d \<and> isPrefixOf cs ds)"

fun includesStr :: "string \<Rightarrow> string \<Rightarrow> bool" where
  \<comment> \<open>\<open>s.includes(sub)\<close>\<close>
  "includesStr [] sub = (sub = [])"
| "includesStr (c # cs) sub = (isPrefixOf sub (c # cs) \<or> includesStr cs sub)"

text \<open>
  The source tries four kinds of rule one after the other and returns from the first
  that applies. Each is a function to an optional result here; \<open>categorizeLine\<close> takes
  the first result, in the order of the source.
\<close>

definition dottedRule :: "string \<Rightarrow> classified option" where
  \<comment> \<open>"Try dotted item format first"\<close>
  "dottedRule line =
     (case rx_exec True pat_dottedItem line of
        None \<Rightarrow> None
      | Some m \<Rightarrow>
          let nm = trim (grp m 1);
              priceStr = grp m 2;
              pr = parsePrice priceStr;
              qty = extractQuantity nm
          in if js_gt pr (Fin 0) \<and> isValidItemName nm
             then Some (Item (removeQuantityFromName nm qty) pr qty (Fin (92 / 100)))
             else None)"

definition summaryRule :: "string \<Rightarrow> classified option" where
  \<comment> \<open>"Try summary patterns": tax, tip, total, subtotal\<close>
  "summaryRule line =
     (case rx_exec True pat_tax line of
        Some m \<Rightarrow> Some (Tax (parsePrice (grp m 1)))
      | None \<Rightarrow>
     (case rx_exec True pat_tip line of
        Some m \<Rightarrow> Some (Tip (parsePrice (grp m 1)))
      | None \<Rightarrow>
     (case rx_exec True pat_total line of
        Some m \<Rightarrow> Some (Total (parsePrice (grp m 1)))
      | None \<Rightarrow>
     (case rx_exec True pat_subtotal line of
        Some m \<Rightarrow> Some (Subtotal (parsePrice (grp m 1)))
      | None \<Rightarrow> None))))"

definition itemRule :: "string \<Rightarrow> classified option" where
  \<comment> \<open>"Try item line patterns"; \<open>qty\<close> is \<open>None\<close> where the source has \<open>null\<close>\<close>
  "itemRule line =
     (case rx_exec True pat_itemLine line of
        None \<Rightarrow> None
      | Some m \<Rightarrow>
          let qty = (if grp m 1 \<noteq> [] then Some (parseInt10 (grp m 1)) else None);
              nm = trim (grp m 2);
              priceStr = grp m 3;
              pr = parsePrice priceStr;
              extractedQty = (case qty of
                                None \<Rightarrow> extractQuantity nm
                              | Some q \<Rightarrow> if truthy q then q else extractQuantity nm);
              nm' = removeQuantityFromName nm extractedQty
          in if js_gt pr (Fin 0) \<and> isValidItemName nm'
             then
               let c1 = (if (case qty of None \<Rightarrow> False | Some q \<Rightarrow> truthy q)
                         then Fin (95 / 100) else Fin (85 / 100));
                   c2 = (if includesStr line ''...'' \<or> includesStr line ''---'' then Fin (90 / 100) else c1)
               in Some (Item nm' pr extractedQty c2)
             else None)"

definition fallbackRule :: "string \<Rightarrow> classified option" where
  \<comment> \<open>"Try to extract any line with price that looks like an item"\<close>
  "fallbackRule line =
     (case rx_exec False pat_price line of
        None \<Rightarrow> None
      | Some m \<Rightarrow>
          let pr = parsePrice (whole line m);
              nm = trim (remove_first False pat_price line);
              qty = extractQuantity nm
          in if js_gt pr (Fin 0) \<and> isValidItemName nm \<and> length nm > 2
             then
               (if js_ge pr (Fin 100) \<and> js_le pr (Fin 99999) \<and> rx_test True pat_streetStart nm
                then None
                else Some (Item (removeQuantityFromName nm qty) pr qty (Fin (70 / 100))))
             else None)"

definition categorizeLine :: "string \<Rightarrow> classified" where
  "categorizeLine line =
     (case dottedRule line of
        Some c \<Rightarrow> c
      | None \<Rightarrow>
     (case summaryRule line of
        Some c \<Rightarrow> c
      | None \<Rightarrow>
     (case itemRule line of
        Some c \<Rightarrow> c
      | None \<Rightarrow>
     (case fallbackRule line of
        Some c \<Rightarrow> c
      | None \<Rightarrow> Unknown))))"

subsection \<open>extractItems, extractSummary, extractMetadata\<close>

definition extractItems :: "string list \<Rightarrow> item list" where
  "extractItems lines =
     foldl (\<lambda>items line.
              case categorizeLine line of
                Item nm pr qty conf \<Rightarrow>
                  items @ [\<lparr>name = cleanItemName nm, price = pr, quantity = js_or qty (Fin 1),
                            raw = line, confidence = conf\<rparr>]
              | _ \<Rightarrow> items)
       [] lines"

definition summaryStep :: "summary \<Rightarrow> classified \<Rightarrow> summary" where
  \<comment> \<open>the \<open>switch\<close> of the loop\<close>
  "summaryStep s c =
     (case c of
        Tax a \<Rightarrow> s\<lparr>tax := a\<rparr>
      | Tip a \<Rightarrow> s\<lparr>tip := a\<rparr>
      | Total a \<Rightarrow> s\<lparr>total := a\<rparr>
      | Subtotal a \<Rightarrow> s\<lparr>subtotal := a\<rparr>
      | _ \<Rightarrow> s)"

definition foldSummary :: "string list \<Rightarrow> summary" where
  \<comment> \<open>the summary after the loop\<close>
  "foldSummary lines =
     foldl (\<lambda>s line. summaryStep s (categorizeLine line))
       \<lparr>tax = Fin 0, tip = Fin 0, total = Fin 0, subtotal = Fin 0\<rparr> lines"

definition inferSubtotal :: "summary \<Rightarrow> summary" where
  \<comment> \<open>"Infer subtotal if not present but total and tax are"\<close>
  "inferSubtotal s =
     (if js_eq (subtotal s) (Fin 0) \<and> js_gt (total s) (Fin 0) \<and> js_gt (tax s) (Fin 0)
      then s\<lparr>subtotal := js_sub (js_sub (total s) (tax s)) (tip s)\<rparr>
      else s)"

definition extractSummary :: "string list \<Rightarrow> summary" where
  "extractSummary lines = inferSubtotal (foldSummary lines)"

record metadata =
  merchant :: string
  date :: string

definition merchantOk :: "string \<Rightarrow> bool" where
  \<comment> \<open>the two nested conditions of the merchant loop\<close>
  "merchantOk line =
     (rx_test False pat_merchant line \<and> length line > 2 \<and> length line < 50 \<and>
      \<not> rx_test True pat_date line \<and> \<not> rx_test False pat_price line)"

definition findMerchant :: "string list \<Rightarrow> string" where
  \<comment> \<open>the loop over \<open>i < Math.min(5, lines.length)\<close>\<close>
  "findMerchant lines = (case find merchantOk (take 5 lines) of None \<Rightarrow> [] | Some line \<Rightarrow> trim line)"

fun findDate :: "string list \<Rightarrow> string option" where
  \<comment> \<open>the text handed to \<open>normalizeDate\<close>: group 1 of the first line with a date\<close>
  "findDate [] = None"
| "findDate (line # lines) =
     (case rx_exec True pat_date (remove_first True pat_datePrefix line) of
        Some m \<Rightarrow> Some (grp m 1)
      | None \<Rightarrow> findDate lines)"

text \<open>
  \<open>normalizeDate\<close> rests on the \<open>Date\<close> object of the runtime and is a parameter,
  \<open>nd\<close>, of the functions that reach it.
\<close>

definition extractMetadata :: "(string \<Rightarrow> string) \<Rightarrow> string list \<Rightarrow> metadata" where
  "extractMetadata nd lines =
     \<lparr>merchant = findMerchant lines,
      date = (case findDate lines of None \<Rightarrow> [] | Some d \<Rightarrow> nd d)\<rparr>"

subsection \<open>parseReceiptText\<close>

record receipt =
  r_merchant :: string
  r_date :: string
  r_items :: "item list"
  r_tax :: jsnum
  r_tip :: jsnum
  r_total :: jsnum
  r_subtotal :: jsnum
  r_confidence :: jsnum

definition createEmptyReceipt :: receipt where
  "createEmptyReceipt =
     \<lparr>r_merchant = [], r_date = [], r_items = [], r_tax = Fin 0, r_tip = Fin 0, r_total = Fin 0,
      r_subtotal = Fin 0, r_confidence = Fin 0\<rparr>"

definition parseReceiptText :: "(string \<Rightarrow> string) \<Rightarrow> string \<Rightarrow> receipt" where
  \<comment> \<open>the argument is a string; the empty string is the only one that is not truthy\<close>
  "parseReceiptText nd text =
     (if text = [] then createEmptyReceipt
      else
        let lines = preprocessText text;
            items = extractItems lines;
            s = extractSummary lines;
            md = extractMetadata nd lines
        in \<lparr>r_merchant = merchant md, r_date = date md, r_items = items, r_tax = tax s,
            r_tip = tip s, r_total = total s, r_subtotal = subtotal s,
            r_confidence = calculateConfidence items s\<rparr>)"

subsection \<open>The last occurrence of a summary kind\<close>

text \<open>
  The amounts of one summary kind in a classified sequence, and the last of them
  (0 when there is none): the words of the specification for what the loop keeps.
\<close>

definition taxOf :: "classified \<Rightarrow> jsnum option" where
  "taxOf c = (case c of Tax a \<Rightarrow> Some a | _ \<Rightarrow> None)"

definition tipOf :: "classified \<Rightarrow> jsnum option" where
  "tipOf c = (case c of Tip a \<Rightarrow> Some a | _ \<Rightarrow> None)"

definition totalOf :: "classified \<Rightarrow> jsnum option" where
  "totalOf c = (case c of Total a \<Rightarrow> Some a | _ \<Rightarrow> None)"

definition subtotalOf :: "classified \<Rightarrow> jsnum option" where
  "subtotalOf c = (case c of Subtotal a \<Rightarrow> Some a | _ \<Rightarrow> None)"

definition lastOf :: "(classified \<Rightarrow> jsnum option) \<Rightarrow> classified list \<Rightarrow> jsnum" where
  "lastOf sel cs = (case List.map_filter sel cs of [] \<Rightarrow> Fin 0 | a # as \<Rightarrow> last (a # as))"

subsection \<open>Lines that start with a label\<close>

definition startsWith :: "string \<Rightarrow> string \<Rightarrow> bool" where
  \<comment> \<open>\<open>s\<close> starts with the lower-case word \<open>w\<close>, up to the case of its letters\<close>
  "startsWith w s \<longleftrightarrow> length w \<le> length s \<and> map toLowerChar (take (length w) s) = w"

definition letters :: "string \<Rightarrow> bool" where
  \<comment> \<open>only the letters a to z\<close>
  "letters w \<longleftrightarrow> (\<forall>x\<in>set w. 97 \<le> code x \<and> code x \<le> 122)"

section \<open>Properties of the fuzzy matching\<close>

lemma lev_zero_right: "lev a b i 0 = i"
  by (cases i) simp_all

lemma lev_sym: "lev a b i j = lev b a j i"
proof (induction a b i j rule: lev.induct)
  case (1 a b j)
  show ?case by (simp add: lev_zero_right)
next
  case (2 a b i)
  show ?case by simp
next
  case (3 a b i j)
  then show ?case by (auto simp: min.commute min.left_commute)
qed

lemma lev_le_max: "lev a b i j \<le> max i j"
  by (induction a b i j rule: lev.induct) auto

lemma shape_dp_set: "shape m n dp \<Longrightarrow> shape m n (dp_set i j v dp)"
  by (cases "i < length dp") (auto simp: shape_def dp_set_def nth_list_update)

lemma nth_dp_set:
  "shape m n dp \<Longrightarrow> i \<le> m \<Longrightarrow> j \<le> n \<Longrightarrow> x \<le> m \<Longrightarrow>
   dp_set i j v dp ! x ! y = (if x = i \<and> y = j then v else dp ! x ! y)"
  by (auto simp: shape_def dp_set_def nth_list_update)

lemma init_col:
  "shape m n dp \<Longrightarrow> k \<le> Suc m \<Longrightarrow>
   shape m n (fold (\<lambda>i d. dp_set i 0 i d) [0..<k] dp) \<and>
   (\<forall>x y. x \<le> m \<longrightarrow> y \<le> n \<longrightarrow>
      fold (\<lambda>i d. dp_set i 0 i d) [0..<k] dp ! x ! y = (if y = 0 \<and> x < k then x else dp ! x ! y))"
proof (induction k)
  case 0
  then show ?case by simp
next
  case (Suc k)
  then show ?case by (auto simp: shape_dp_set nth_dp_set)
qed

lemma init_row:
  "shape m n dp \<Longrightarrow> k \<le> Suc n \<Longrightarrow>
   shape m n (fold (\<lambda>j d. dp_set 0 j j d) [0..<k] dp) \<and>
   (\<forall>x y. x \<le> m \<longrightarrow> y \<le> n \<longrightarrow>
      fold (\<lambda>j d. dp_set 0 j j d) [0..<k] dp ! x ! y = (if x = 0 \<and> y < k then y else dp ! x ! y))"
proof (induction k)
  case 0
  then show ?case by simp
next
  case (Suc k)
  then show ?case by (auto simp: shape_dp_set nth_dp_set)
qed

lemma shape_replicate: "shape m n (replicate (Suc m) (replicate (Suc n) 0))"
  by (simp add: shape_def del: replicate.simps)

lemma filled_init: "filled a b 1 1 (dp_init (length a) (length b))"
  using init_col [OF shape_replicate, of "Suc (length a)" "length a" "length b"]
  apply (clarsimp simp: filled_def dp_init_def)
  subgoal premises p
    using init_row [OF p(1), of "Suc (length b)"] p(2)
    by (auto simp: lev_zero_right)
  done

lemma filled_cell:
  assumes "filled a b i j dp" "1 \<le> i" "i \<le> length a" "1 \<le> j" "j \<le> length b"
  shows "filled a b i (Suc j) (dp_cell a b i j dp)"
proof -
  obtain i' j' where ij: "i = Suc i'" "j = Suc j'"
    using assms(2,4) by (metis One_nat_def Suc_le_D)
  have sh: "shape (length a) (length b) dp" using assms(1) by (simp add: filled_def)
  have v: "dp ! x ! y = lev a b x y"
    if "x \<le> length a" "y \<le> length b" "x = 0 \<or> y = 0 \<or> x < i \<or> (x = i \<and> y < j)" for x y
    using assms(1) that unfolding filled_def by blast
  have d1: "dp ! i' ! j' = lev a b i' j'" using v [of i' j'] assms ij by simp
  have d2: "dp ! i' ! j = lev a b i' j" using v [of i' j] assms ij by simp
  have d3: "dp ! i ! j' = lev a b i j'" using v [of i j'] assms ij by simp
  have new: "dp_cell a b i j dp ! i ! j = lev a b i j"
    using sh assms(3,5) d1 d2 d3 ij
    by (simp add: dp_cell_def nth_dp_set)
  have old: "dp_cell a b i j dp ! x ! y = dp ! x ! y"
    if "x \<le> length a" "\<not> (x = i \<and> y = j)" for x y
    using sh assms(3,5) that by (auto simp: dp_cell_def nth_dp_set)
  have "shape (length a) (length b) (dp_cell a b i j dp)"
    using sh by (simp add: dp_cell_def shape_dp_set)
  moreover have "dp_cell a b i j dp ! x ! y = lev a b x y"
    if "x \<le> length a" "y \<le> length b" "x = 0 \<or> y = 0 \<or> x < i \<or> (x = i \<and> y < Suc j)" for x y
  proof (cases "x = i \<and> y = j")
    case True
    then show ?thesis using new by simp
  next
    case False
    then have "x = 0 \<or> y = 0 \<or> x < i \<or> (x = i \<and> y < j)" using that(3) by auto
    then show ?thesis using old [OF that(1) False] v [OF that(1,2)] by simp
  qed
  ultimately show ?thesis by (simp add: filled_def)
qed

lemma filled_row_loop:
  "filled a b i 1 dp \<Longrightarrow> 1 \<le> i \<Longrightarrow> i \<le> length a \<Longrightarrow> k \<le> length b \<Longrightarrow>
   filled a b i (Suc k) (fold (\<lambda>j. dp_cell a b i j) [1..<Suc k] dp)"
proof (induction k)
  case 0
  then show ?case by simp
next
  case (Suc k)
  then have "filled a b i (Suc k) (fold (\<lambda>j. dp_cell a b i j) [1..<Suc k] dp)" by simp
  from filled_cell [OF this] Suc.prems show ?case by simp
qed

lemma filled_next_row: "filled a b i (Suc (length b)) dp \<Longrightarrow> filled a b (Suc i) 1 dp"
proof -
  assume f: "filled a b i (Suc (length b)) dp"
  have "dp ! x ! y = lev a b x y"
    if "x \<le> length a" "y \<le> length b" "x = 0 \<or> y = 0 \<or> x < Suc i \<or> (x = Suc i \<and> y < 1)" for x y
  proof -
    have "x = 0 \<or> y = 0 \<or> x < i \<or> (x = i \<and> y < Suc (length b))"
      using that by auto
    then show ?thesis using f that(1,2) unfolding filled_def by blast
  qed
  then show ?thesis using f by (simp add: filled_def)
qed

lemma filled_row: "filled a b i 1 dp \<Longrightarrow> 1 \<le> i \<Longrightarrow> i \<le> length a \<Longrightarrow> filled a b (Suc i) 1 (dp_row a b i dp)"
  using filled_next_row [OF filled_row_loop [of a b i dp "length b"]]
  by (simp add: dp_row_def del: upt_Suc)

lemma filled_rows:
  "k \<le> length a \<Longrightarrow>
   filled a b (Suc k) 1 (fold (\<lambda>i. dp_row a b i) [1..<Suc k] (dp_init (length a) (length b)))"
proof (induction k)
  case 0
  then show ?case using filled_init [of a b] by simp
next
  case (Suc k)
  then have "filled a b (Suc k) 1 (fold (\<lambda>i. dp_row a b i) [1..<Suc k] (dp_init (length a) (length b)))"
    by simp
  from filled_row [OF this] Suc.prems show ?case by simp
qed

lemma levenshteinDistance_lev: "levenshteinDistance a b = lev a b (length a) (length b)"
  using filled_rows [of "length a" a b]
  by (simp add: levenshteinDistance_def dp_fill_def filled_def)

lemma levenshteinDistance_sym: "levenshteinDistance a b = levenshteinDistance b a"
  by (simp add: levenshteinDistance_lev lev_sym [of a b])

lemma levenshteinDistance_le: "levenshteinDistance a b \<le> max (length a) (length b)"
  by (simp add: levenshteinDistance_lev lev_le_max)

text \<open>
  C9. calculateSimilarity is symmetric, gives 1 on equal arguments, and its result lies
  between 0 and 1 for every pair of strings.
\<close>

theorem calculateSimilarity_sym_refl_bounded:
  "calculateSimilarity a b = calculateSimilarity b a \<and>
   calculateSimilarity a a = 1 \<and>
   0 \<le> calculateSimilarity a b \<and> calculateSimilarity a b \<le> 1"
proof -
  define s1 where "s1 = trim (toLowerCase a)"
  define s2 where "s2 = trim (toLowerCase b)"
  have sym: "calculateSimilarity a b = calculateSimilarity b a"
    unfolding calculateSimilarity_def Let_def
    by (auto simp: levenshteinDistance_sym [of "trim (toLowerCase a)"] max.commute)
  have refl: "calculateSimilarity a a = 1"
    by (simp add: calculateSimilarity_def)
  have d: "levenshteinDistance s1 s2 \<le> max (length s1) (length s2)"
    by (rule levenshteinDistance_le)
  have bounds: "0 \<le> calculateSimilarity a b \<and> calculateSimilarity a b \<le> 1"
  proof (cases "s1 = s2 \<or> max (length s1) (length s2) = 0")
    case True
    then show ?thesis
      unfolding calculateSimilarity_def Let_def s1_def s2_def by auto
  next
    case False
    then have pos: "0 < max (length s1) (length s2)" by (cases s1; cases s2) auto
    have q: "(of_nat (levenshteinDistance s1 s2) :: rat) / of_nat (max (length s1) (length s2)) \<le> 1"
      using d pos by (simp add: of_nat_le_iff [symmetric] del: of_nat_le_iff of_nat_max)
    have q0: "0 \<le> (of_nat (levenshteinDistance s1 s2) :: rat) / of_nat (max (length s1) (length s2))"
      by simp
    have "calculateSimilarity a b =
          1 - of_nat (levenshteinDistance s1 s2) / of_nat (max (length s1) (length s2))"
      using False unfolding calculateSimilarity_def Let_def s1_def s2_def by auto
    then show ?thesis using q q0 by simp
  qed
  show ?thesis using sym refl bounds by simp
qed

section \<open>Properties of the price normaliser\<close>

lemma isDigit_simps:
  "isDigit c \<Longrightarrow> \<not> isSpace c"
  "isDigit c \<Longrightarrow> \<not> isSep c"
  "isDigit c \<Longrightarrow> \<not> isCurrency c"
  "isDigit c \<Longrightarrow> c \<noteq> CHR ''.''"
  "isDigit c \<Longrightarrow> c \<noteq> CHR ''+''"
  "isDigit c \<Longrightarrow> c \<noteq> CHR ''-''"
  "isDigit c \<Longrightarrow> c \<noteq> CHR ''I''"
  by (auto simp: isDigit_def isSpace_def isSep_def isCurrency_def Let_def code_def)

lemma not_isDigit_dot: "\<not> isDigit CHR ''.''" "\<not> isSpace CHR ''.''"
  by (simp_all add: isDigit_def isSpace_def Let_def code_def)

lemma takeWhile_digits: "list_all isDigit ds \<Longrightarrow> takeWhile isDigit ds = ds"
  by (induction ds) auto

lemma dropWhile_digits: "list_all isDigit ds \<Longrightarrow> dropWhile isDigit ds = []"
  by (induction ds) auto

lemma takeWhile_digits_app:
  "list_all isDigit ds \<Longrightarrow> \<not> isDigit c \<Longrightarrow> takeWhile isDigit (ds @ c # r) = ds"
  by (induction ds) auto

lemma dropWhile_digits_app:
  "list_all isDigit ds \<Longrightarrow> \<not> isDigit c \<Longrightarrow> dropWhile isDigit (ds @ c # r) = c # r"
  by (induction ds) auto

lemma scale10_zero: "scale10 x 0 = x"
  by (simp add: scale10_def)

lemma exponentPart_Nil: "exponentPart [] = 0"
  by (simp add: exponentPart_def)

lemma not_Infinity:
  "s \<noteq> [] \<Longrightarrow> hd s \<noteq> CHR ''I'' \<Longrightarrow> take 8 s \<noteq> ''Infinity''"
  by (cases s) auto

lemma parseUnsigned_int:
  assumes "list_all isDigit ip" "ip \<noteq> []"
  shows "parseUnsigned ip = Fin (of_int (dval ip))"
proof -
  have "hd ip \<noteq> CHR ''I''" using assms by (cases ip) (auto simp: isDigit_simps)
  then have "take 8 ip \<noteq> ''Infinity''" using assms(2) by (rule not_Infinity [rotated])
  then show ?thesis
    using assms by (simp add: parseUnsigned_def takeWhile_digits dropWhile_digits)
qed

lemma parseUnsigned_dec:
  assumes "list_all isDigit ip" "list_all isDigit fp"
  shows "parseUnsigned (ip @ ''.'' @ fp) =
         (if ip = [] \<and> fp = [] then NaN else Fin (decval ip fp))"
proof -
  have "hd (ip @ ''.'' @ fp) \<noteq> CHR ''I''" using assms by (cases ip) (auto simp: isDigit_simps)
  then have inf: "take 8 (ip @ ''.'' @ fp) \<noteq> ''Infinity''" by (intro not_Infinity) simp_all
  have t: "takeWhile isDigit (ip @ ''.'' @ fp) = ip"
    using takeWhile_digits_app [OF assms(1) not_isDigit_dot(1), of fp] by simp
  have d: "dropWhile isDigit (ip @ ''.'' @ fp) = ''.'' @ fp"
    using dropWhile_digits_app [OF assms(1) not_isDigit_dot(1), of fp] by simp
  show ?thesis
    unfolding parseUnsigned_def Let_def t d using inf assms(2)
    by (simp add: takeWhile_digits dropWhile_digits exponentPart_Nil scale10_zero)
qed

lemma parseFloat_int:
  assumes "list_all isDigit ip" "ip \<noteq> []"
  shows "parseFloat ip = Fin (of_int (dval ip))"
proof -
  obtain c r where ip: "ip = c # r" using assms(2) by (cases ip) auto
  then have c: "isDigit c" using assms(1) by simp
  show ?thesis
    using parseUnsigned_int [OF assms] c unfolding parseFloat_def ip
    by (simp add: isDigit_simps)
qed

lemma parseFloat_dec:
  assumes "list_all isDigit ip" "list_all isDigit fp"
  shows "parseFloat (ip @ ''.'' @ fp) =
         (if ip = [] \<and> fp = [] then NaN else Fin (decval ip fp))"
proof (cases ip)
  case Nil
  then show ?thesis
    using parseUnsigned_dec [OF assms] by (simp add: parseFloat_def not_isDigit_dot)
next
  case (Cons c r)
  then have c: "isDigit c" using assms(1) by simp
  show ?thesis
    using parseUnsigned_dec [OF assms] c unfolding parseFloat_def Cons
    by (simp add: isDigit_simps)
qed

lemma dval_snoc: "dval (ds @ [c]) = 10 * dval ds + digitVal c"
  by (simp add: dval_def)

lemma dval_nonneg: "list_all isDigit ds \<Longrightarrow> 0 \<le> dval ds"
proof (induction ds rule: rev_induct)
  case Nil
  then show ?case by (simp add: dval_def)
next
  case (snoc c ds)
  then show ?case by (auto simp: dval_snoc isDigit_def digitVal_def Let_def)
qed

lemma decval_nonneg: "list_all isDigit ip \<Longrightarrow> list_all isDigit fp \<Longrightarrow> 0 \<le> decval ip fp"
  by (simp add: decval_def dval_nonneg)

lemma splitSep_nonempty: "splitSep t \<noteq> []"
  by (cases t) (auto split: list.splits)

lemma splitSep_single: "length (splitSep t) = 1 \<Longrightarrow> splitSep t = [t]"
proof (induction t)
  case Nil
  then show ?case by simp
next
  case (Cons c cs)
  show ?case
  proof (cases "isSep c")
    case True
    then show ?thesis using Cons.prems splitSep_nonempty [of cs] by simp
  next
    case False
    obtain p ps where sp: "splitSep cs = p # ps"
      using splitSep_nonempty [of cs] by (cases "splitSep cs") auto
    with False Cons.prems have "ps = []" by simp
    with sp Cons.IH have "splitSep cs = [cs]" by simp
    with False show ?thesis by simp
  qed
qed

lemma splitSep_digits:
  "list_all (\<lambda>c. isDigit c \<or> isSep c) t \<Longrightarrow> \<forall>p\<in>set (splitSep t). list_all isDigit p"
proof (induction t)
  case Nil
  then show ?case by simp
next
  case (Cons c cs)
  obtain p ps where sp: "splitSep cs = p # ps"
    using splitSep_nonempty [of cs] by (cases "splitSep cs") auto
  from Cons have ih: "list_all isDigit p" "\<forall>q\<in>set ps. list_all isDigit q"
    using sp by auto
  show ?case
  proof (cases "isSep c")
    case True
    then show ?thesis using sp ih by simp
  next
    case False
    then have "isDigit c" using Cons.prems by simp
    then show ?thesis using False sp ih by simp
  qed
qed

lemma stripCurrency_digits:
  "list_all (\<lambda>c. isDigit c \<or> isSep c \<or> isCurrency c \<or> isSpace c) s \<Longrightarrow>
   list_all (\<lambda>c. isDigit c \<or> isSep c) (stripCurrency s)"
  by (induction s) (auto simp: stripCurrency_def)

lemma concat_digits: "\<forall>p\<in>set ps. list_all isDigit p \<Longrightarrow> list_all isDigit (concat ps)"
  by (induction ps) auto

lemma parsePrice_of_float:
  "priceStr \<noteq> [] \<Longrightarrow> parseFloat (normalizeSeparators priceStr) = Fin r \<Longrightarrow> parsePrice priceStr = Fin r"
  by (simp add: parsePrice_def isNaN_def)

lemma parsePrice_of_NaN:
  "parseFloat (normalizeSeparators priceStr) = NaN \<Longrightarrow> parsePrice priceStr = Fin 0"
  by (simp add: parsePrice_def isNaN_def)

lemma parsePrice_dec:
  assumes "priceStr \<noteq> []" "normalizeSeparators priceStr = ip @ ''.'' @ fp"
    "list_all isDigit ip" "list_all isDigit fp"
  shows "parsePrice priceStr = Fin (decval ip fp)"
proof (cases "ip = [] \<and> fp = []")
  case True
  then have "parseFloat (normalizeSeparators priceStr) = NaN"
    using parseFloat_dec [OF assms(3,4)] assms(2) by simp
  then show ?thesis using True by (simp add: parsePrice_of_NaN decval_def dval_def)
next
  case False
  then have "parseFloat (normalizeSeparators priceStr) = Fin (decval ip fp)"
    using parseFloat_dec [OF assms(3,4)] assms(2) by auto
  then show ?thesis using assms(1) by (rule parsePrice_of_float [rotated])
qed

lemma parsePrice_int:
  assumes "normalizeSeparators priceStr = ip" "list_all isDigit ip"
  shows "parsePrice priceStr = Fin (of_int (dval ip))"
proof (cases "ip = []")
  case True
  then have "parseFloat (normalizeSeparators priceStr) = NaN"
    using assms(1) by (simp add: parseFloat_def)
  then show ?thesis using True by (simp add: parsePrice_of_NaN dval_def)
next
  case False
  then have ne: "priceStr \<noteq> []"
    using assms(1) by (auto simp: normalizeSeparators_def stripCurrency_def)
  have "parseFloat (normalizeSeparators priceStr) = Fin (of_int (dval ip))"
    using parseFloat_int [OF assms(2) False] assms(1) by simp
  then show ?thesis using ne by (rule parsePrice_of_float [rotated])
qed

lemma normalize_many:
  "parts = splitSep (stripCurrency s) \<Longrightarrow> length parts > 2 \<Longrightarrow>
   normalizeSeparators s = concat (butlast parts) @ ''.'' @ last parts"
  by (simp add: normalizeSeparators_def Let_def)

lemma normalize_two:
  "parts = splitSep (stripCurrency s) \<Longrightarrow> length parts = 2 \<Longrightarrow>
   normalizeSeparators s =
     (if length (parts ! 1) = 2 then parts ! 0 @ ''.'' @ parts ! 1
      else if length (parts ! 1) = 1 then parts ! 0 @ ''.'' @ parts ! 1 @ ''0''
      else if length (parts ! 1) > 2 then parts ! 0 @ parts ! 1
      else parts ! 0 @ ''.'' @ parts ! 1)"
  by (simp add: normalizeSeparators_def Let_def)

lemma normalize_one:
  "length (splitSep (stripCurrency s)) = 1 \<Longrightarrow> normalizeSeparators s = stripCurrency s"
  by (simp add: normalizeSeparators_def Let_def)

lemma decval_pad: "decval ip (fp @ ''0'') = decval ip fp"
  by (simp add: decval_def dval_snoc digitVal_def code_def)

lemma parsePrice_rules:
  assumes ne: "priceStr \<noteq> []"
    and parts: "parts = splitSep (stripCurrency priceStr)"
    and digs: "\<forall>p\<in>set parts. list_all isDigit p"
  shows many: "length parts > 2 \<Longrightarrow>
           parsePrice priceStr = Fin (decval (concat (butlast parts)) (last parts))"
    and cents: "length parts = 2 \<Longrightarrow> length (parts ! 1) = 2 \<Longrightarrow>
           parsePrice priceStr = Fin (decval (parts ! 0) (parts ! 1))"
    and tenth: "length parts = 2 \<Longrightarrow> length (parts ! 1) = 1 \<Longrightarrow>
           parsePrice priceStr = Fin (decval (parts ! 0) (parts ! 1))"
    and thousands: "length parts = 2 \<Longrightarrow> length (parts ! 1) > 2 \<Longrightarrow>
           parsePrice priceStr = Fin (of_int (dval (parts ! 0 @ parts ! 1)))"
    and trailing: "length parts = 2 \<Longrightarrow> length (parts ! 1) = 0 \<Longrightarrow>
           parsePrice priceStr = Fin (of_int (dval (parts ! 0)))"
    and single: "length parts = 1 \<Longrightarrow>
           parsePrice priceStr = Fin (of_int (dval (stripCurrency priceStr)))"
proof -
  have pne: "parts \<noteq> []" using parts splitSep_nonempty by simp
  { assume l: "length parts > 2"
    have "list_all isDigit (concat (butlast parts))"
      using digs by (intro concat_digits) (auto dest: in_set_butlastD)
    moreover have "list_all isDigit (last parts)" using digs pne by simp
    ultimately show "parsePrice priceStr = Fin (decval (concat (butlast parts)) (last parts))"
      using parsePrice_dec [OF ne normalize_many [OF parts l]] by simp }
  { assume l: "length parts = 2"
    then have d: "list_all isDigit (parts ! 0)" "list_all isDigit (parts ! 1)"
      using digs by (auto simp: all_set_conv_all_nth)
    { assume "length (parts ! 1) = 2"
      then show "parsePrice priceStr = Fin (decval (parts ! 0) (parts ! 1))"
        using parsePrice_dec [OF ne _ d] normalize_two [OF parts l] by simp }
    { assume l1: "length (parts ! 1) = 1"
      have "list_all isDigit (parts ! 1 @ ''0'')" using d by (simp add: isDigit_def Let_def code_def)
      from parsePrice_dec [OF ne _ d(1) this] normalize_two [OF parts l] l1
      show "parsePrice priceStr = Fin (decval (parts ! 0) (parts ! 1))"
        by (simp add: decval_pad) }
    { assume "length (parts ! 1) > 2"
      then show "parsePrice priceStr = Fin (of_int (dval (parts ! 0 @ parts ! 1)))"
        using parsePrice_int [of priceStr "parts ! 0 @ parts ! 1"] d normalize_two [OF parts l]
        by simp }
    { assume "length (parts ! 1) = 0"
      then show "parsePrice priceStr = Fin (of_int (dval (parts ! 0)))"
        using parsePrice_dec [OF ne _ d] normalize_two [OF parts l]
        by (simp add: decval_def dval_def) } }
  { assume l: "length parts = 1"
    then have "splitSep (stripCurrency priceStr) = [stripCurrency priceStr]"
      using parts splitSep_single by simp
    then have "list_all isDigit (stripCurrency priceStr)" using digs parts by simp
    then show "parsePrice priceStr = Fin (of_int (dval (stripCurrency priceStr)))"
      using parsePrice_int [of priceStr] normalize_one l parts by simp }
qed

lemma scale10_nonneg: "0 \<le> x \<Longrightarrow> 0 \<le> scale10 x e"
  by (simp add: scale10_def)

lemma dval_prefix_nonneg: "0 \<le> dval (takeWhile isDigit s)"
proof -
  have "list_all isDigit (takeWhile isDigit s)"
    by (induction s) auto
  then show ?thesis by (rule dval_nonneg)
qed

lemma decval_prefix_nonneg: "0 \<le> decval (takeWhile isDigit s) (takeWhile isDigit t)"
  by (simp add: decval_def dval_prefix_nonneg)

lemma takeWhile_all_digits: "list_all isDigit (takeWhile isDigit s)"
  by (induction s) auto

lemma parseUnsigned_nonneg:
  "parseUnsigned u = NaN \<or> parseUnsigned u = PInf \<or> (\<exists>r. parseUnsigned u = Fin r \<and> 0 \<le> r)"
proof -
  have i: "0 \<le> scale10 (of_int (dval (takeWhile isDigit u))) e" for e
    by (intro scale10_nonneg) (simp add: dval_prefix_nonneg)
  have d: "0 \<le> scale10 (decval (takeWhile isDigit u) (takeWhile isDigit r)) e" for r e
    by (intro scale10_nonneg decval_nonneg takeWhile_all_digits)
  have d0: "0 \<le> scale10 (decval [] (takeWhile isDigit r)) e" for r e
    by (intro scale10_nonneg decval_nonneg takeWhile_all_digits) simp
  show ?thesis
    unfolding parseUnsigned_def Let_def using i d d0 dval_prefix_nonneg [of u]
    by (simp split: list.splits)
qed

lemma parseFloat_nonneg:
  assumes "take 1 t \<noteq> ''-''" "t = [] \<or> \<not> isSpace (hd t)"
  shows "parseFloat t = NaN \<or> parseFloat t = PInf \<or> (\<exists>r. parseFloat t = Fin r \<and> 0 \<le> r)"
proof (cases t)
  case Nil
  then show ?thesis by (simp add: parseFloat_def)
next
  case (Cons c r)
  then have c: "c \<noteq> CHR ''-''" "\<not> isSpace c" using assms by auto
  show ?thesis
    using parseUnsigned_nonneg [of r] parseUnsigned_nonneg [of "c # r"] c
    unfolding Cons parseFloat_def by auto
qed

lemma splitSep_set: "\<forall>p\<in>set (splitSep t). set p \<subseteq> set t"
proof (induction t)
  case Nil
  then show ?case by simp
next
  case (Cons c cs)
  show ?case
  proof (cases "splitSep cs")
    case Nil
    then show ?thesis by simp
  next
    case (Cons q qs)
    then have "set q \<subseteq> set cs" "\<forall>p\<in>set qs. set p \<subseteq> set cs"
      using Cons.IH by simp_all
    then show ?thesis using Cons by auto
  qed
qed

lemma normalizeSeparators_set:
  "set (normalizeSeparators s) \<subseteq> set (stripCurrency s) \<union> {CHR ''.'', CHR ''0''}"
proof -
  define parts where "parts = splitSep (stripCurrency s)"
  have ne: "parts \<noteq> []" by (simp add: parts_def splitSep_nonempty)
  have sub: "set p \<subseteq> set (stripCurrency s)" if "p \<in> set parts" for p
    using that splitSep_set [of "stripCurrency s"] unfolding parts_def by blast
  have l: "set (last parts) \<subseteq> set (stripCurrency s)" using sub ne by simp
  have b: "set (concat (butlast parts)) \<subseteq> set (stripCurrency s)"
    using sub by (auto dest: in_set_butlastD)
  have n: "set (parts ! 0) \<subseteq> set (stripCurrency s)" "set (parts ! 1) \<subseteq> set (stripCurrency s)"
    if "length parts = 2"
    using that sub by simp_all
  have "0 < length parts" using ne by simp
  then consider "2 < length parts" | "length parts = 2" | "length parts = 1"
    by linarith
  then show ?thesis
  proof cases
    case 1
    then show ?thesis using l b by (auto simp: normalize_many [OF parts_def])
  next
    case 2
    then show ?thesis using n [OF 2] by (auto simp: normalize_two [OF parts_def 2])
  next
    case 3
    then have "normalizeSeparators s = stripCurrency s"
      using normalize_one [of s] by (simp add: parts_def)
    then show ?thesis by auto
  qed
qed

lemma normalizeSeparators_no_space: "c \<in> set (normalizeSeparators s) \<Longrightarrow> \<not> isSpace c"
proof -
  assume "c \<in> set (normalizeSeparators s)"
  then have "c \<in> set (stripCurrency s) \<or> c = CHR ''.'' \<or> c = CHR ''0''"
    using normalizeSeparators_set [of s] by auto
  then show ?thesis
    by (auto simp: stripCurrency_def isSpace_def Let_def code_def)
qed

lemma parseUnsigned_no_number:
  assumes "list_all (\<lambda>c. \<not> isDigit c) a" "b = [] \<or> 2 \<le> length a"
    "take 8 (a @ b) \<noteq> ''Infinity''"
  shows "parseUnsigned (a @ b) = NaN"
proof (cases a)
  case Nil
  then show ?thesis using assms by (simp add: parseUnsigned_def)
next
  case (Cons d a')
  then have d: "\<not> isDigit d" using assms(1) by simp
  have t: "takeWhile isDigit (a @ b) = []" "dropWhile isDigit (a @ b) = d # a' @ b"
    using d by (simp_all add: Cons)
  have fp: "takeWhile isDigit (a' @ b) = []"
  proof (cases a')
    case Nil
    then show ?thesis using assms(2) Cons by simp
  next
    case (Cons e a'')
    then show ?thesis using assms(1) \<open>a = d # a'\<close> by simp
  qed
  show ?thesis
    unfolding parseUnsigned_def Let_def t using assms(3) fp by simp
qed

lemma parseFloat_no_number:
  assumes "list_all (\<lambda>c. \<not> isDigit c \<and> \<not> isSpace c) a"
    and "b = [] \<or> (2 \<le> length a \<and> (hd a = CHR ''+'' \<or> hd a = CHR ''-'' \<longrightarrow> 3 \<le> length a))"
    and "take 8 (a @ b) \<noteq> ''Infinity''" "take 9 (a @ b) \<noteq> ''+Infinity''"
      "take 9 (a @ b) \<noteq> ''-Infinity''"
  shows "parseFloat (a @ b) = NaN"
proof (cases a)
  case Nil
  then show ?thesis using assms(2) by (simp add: parseFloat_def)
next
  case (Cons c a')
  have nd: "list_all (\<lambda>c. \<not> isDigit c) a" "list_all (\<lambda>c. \<not> isDigit c) a'"
    using assms(1) Cons by (simp_all add: list_all_iff)
  have sp: "\<not> isSpace c" using assms(1) Cons by simp
  have whole: "parseUnsigned (a @ b) = NaN"
    using assms(2) by (intro parseUnsigned_no_number [OF nd(1) _ assms(3)]) auto
  have rest: "parseUnsigned (a' @ b) = NaN" if "c = CHR ''+'' \<or> c = CHR ''-''"
  proof -
    have "b = [] \<or> 2 \<le> length a'" using assms(2) that Cons by auto
    moreover have "take 8 (a' @ b) \<noteq> ''Infinity''"
      using assms(4,5) that Cons by auto
    ultimately show ?thesis by (intro parseUnsigned_no_number [OF nd(2)])
  qed
  show ?thesis
    using whole rest sp unfolding parseFloat_def by (auto simp: Cons)
qed

lemma stripCurrency_plain:
  "list_all (\<lambda>c. \<not> isDigit c) s \<Longrightarrow> list_all (\<lambda>c. \<not> isDigit c \<and> \<not> isSpace c) (stripCurrency s)"
  by (induction s) (auto simp: stripCurrency_def)

lemma normalizeSeparators_no_number:
  assumes "list_all (\<lambda>c. \<not> isDigit c) s"
  shows "\<exists>a b. normalizeSeparators s = a @ b \<and> list_all (\<lambda>c. \<not> isDigit c \<and> \<not> isSpace c) a \<and>
           (b = [] \<or> (2 \<le> length a \<and> (hd a = CHR ''+'' \<or> hd a = CHR ''-'' \<longrightarrow> 3 \<le> length a)))"
proof -
  define parts where "parts = splitSep (stripCurrency s)"
  let ?P = "\<lambda>c. \<not> isDigit c \<and> \<not> isSpace c"
  have ne: "parts \<noteq> []" by (simp add: parts_def splitSep_nonempty)
  have cl: "list_all ?P (stripCurrency s)" by (rule stripCurrency_plain [OF assms])
  have dot: "?P CHR ''.''" by (simp add: not_isDigit_dot)
  have sub: "list_all ?P p" if "p \<in> set parts" for p
    using that splitSep_set [of "stripCurrency s"] cl unfolding parts_def list_all_iff by blast
  have "0 < length parts" using ne by simp
  then consider "2 < length parts" | "length parts = 2" | "length parts = 1"
    by linarith
  then show ?thesis
  proof cases
    case 1
    have "list_all ?P (last parts)" using sub ne by simp
    moreover have "list_all ?P (concat (butlast parts))"
      using sub by (auto simp: list_all_iff dest: in_set_butlastD)
    ultimately have "list_all ?P (concat (butlast parts) @ ''.'' @ last parts)"
      using dot by simp
    then show ?thesis
      unfolding normalize_many [OF parts_def 1]
      by (intro exI [of _ "concat (butlast parts) @ ''.'' @ last parts"] exI [of _ "[]"]) simp
  next
    case 2
    then have p: "list_all ?P (parts ! 0)" "list_all ?P (parts ! 1)" using sub by simp_all
    show ?thesis
    proof (cases "length (parts ! 1) = 1")
      case True
      define a where "a = parts ! 0 @ ''.'' @ parts ! 1"
      have n: "normalizeSeparators s = a @ ''0''"
        using True by (simp add: normalize_two [OF parts_def 2] a_def)
      have "list_all ?P a" using p dot by (simp add: a_def)
      moreover have "2 \<le> length a" using True by (simp add: a_def)
      moreover have "3 \<le> length a" if "hd a = CHR ''+'' \<or> hd a = CHR ''-''"
      proof -
        have "parts ! 0 \<noteq> []" using that by (auto simp: a_def)
        then have "1 \<le> length (parts ! 0)" by (cases "parts ! 0") auto
        then show ?thesis using True by (simp add: a_def)
      qed
      ultimately show ?thesis using n by blast
    next
      case False
      have "list_all ?P (normalizeSeparators s)"
        using False p dot by (simp add: normalize_two [OF parts_def 2])
      then show ?thesis by (intro exI [of _ "normalizeSeparators s"] exI [of _ "[]"]) simp
    qed
  next
    case 3
    then have "normalizeSeparators s = stripCurrency s"
      using normalize_one [of s] by (simp add: parts_def)
    then show ?thesis using cl by (intro exI [of _ "stripCurrency s"] exI [of _ "[]"]) simp
  qed
qed

text \<open>
  C2. parsePrice resolves the separators as specified. Let \<open>parts\<close> be the runs of
  digits between the dots and commas of the input (currency signs and white space
  removed). With more than two parts the last separator is the decimal point and the
  earlier parts are concatenated; with two parts, a second part of two digits is the
  cents, of one digit the tenths, and of more than two digits a thousands group that is
  concatenated. So "24.00" and "24,00" give 24, and "1.234,56" and "1,234.56" give
  1234.56.
\<close>

theorem parsePrice_separator_rules:
  assumes "priceStr \<noteq> []"
    and "parts = splitSep (stripCurrency priceStr)"
    and "\<forall>p\<in>set parts. list_all isDigit p"
  shows "(2 < length parts \<longrightarrow>
            parsePrice priceStr = Fin (decval (concat (butlast parts)) (last parts))) \<and>
         (length parts = 2 \<and> length (parts ! 1) = 2 \<longrightarrow>
            parsePrice priceStr = Fin (of_int (dval (parts ! 0)) + of_int (dval (parts ! 1)) / 100)) \<and>
         (length parts = 2 \<and> length (parts ! 1) = 1 \<longrightarrow>
            parsePrice priceStr = Fin (of_int (dval (parts ! 0)) + of_int (dval (parts ! 1)) / 10)) \<and>
         (length parts = 2 \<and> 2 < length (parts ! 1) \<longrightarrow>
            parsePrice priceStr = Fin (of_int (dval (parts ! 0 @ parts ! 1)))) \<and>
         parsePrice ''24.00'' = Fin 24 \<and> parsePrice ''24,00'' = Fin 24 \<and>
         parsePrice ''1.234,56'' = Fin (123456 / 100) \<and>
         parsePrice ''1,234.56'' = Fin (123456 / 100)"
proof -
  have a: "2 < length parts \<longrightarrow>
      parsePrice priceStr = Fin (decval (concat (butlast parts)) (last parts))"
    using parsePrice_rules(1) [OF assms] by simp
  have b: "length parts = 2 \<and> length (parts ! 1) = 2 \<longrightarrow>
      parsePrice priceStr = Fin (of_int (dval (parts ! 0)) + of_int (dval (parts ! 1)) / 100)"
    using parsePrice_rules(2) [OF assms] by (auto simp: decval_def)
  have c: "length parts = 2 \<and> length (parts ! 1) = 1 \<longrightarrow>
      parsePrice priceStr = Fin (of_int (dval (parts ! 0)) + of_int (dval (parts ! 1)) / 10)"
    using parsePrice_rules(3) [OF assms] by (auto simp: decval_def)
  have d: "length parts = 2 \<and> 2 < length (parts ! 1) \<longrightarrow>
      parsePrice priceStr = Fin (of_int (dval (parts ! 0 @ parts ! 1)))"
    using parsePrice_rules(4) [OF assms] by simp
  have e1: "parsePrice ''24.00'' = Fin 24" by code_simp
  have e2: "parsePrice ''24,00'' = Fin 24" by code_simp
  have e3: "parsePrice ''1.234,56'' = Fin (123456 / 100)" by code_simp
  have e4: "parsePrice ''1,234.56'' = Fin (123456 / 100)" by code_simp
  show ?thesis using a b c d e1 e2 e3 e4 by blast
qed

theorem parsePrice_separator_rules_witness:
  "parsePrice ''$1.234,56'' = Fin (decval ''1234'' ''56'') \<and>
   parsePrice ''12,50'' = Fin (of_int (dval ''12'') + of_int (dval ''50'') / 100) \<and>
   parsePrice ''12.5'' = Fin (of_int (dval ''12'') + of_int (dval ''5'') / 10) \<and>
   parsePrice ''12.345'' = Fin (of_int (dval ''12345''))"
proof -
  have p1: "[''1'', ''234'', ''56''] = splitSep (stripCurrency ''$1.234,56'')" by code_simp
  have p2: "[''12'', ''50''] = splitSep (stripCurrency ''12,50'')" by code_simp
  have p3: "[''12'', ''5''] = splitSep (stripCurrency ''12.5'')" by code_simp
  have p4: "[''12'', ''345''] = splitSep (stripCurrency ''12.345'')" by code_simp
  have d1: "\<forall>p\<in>set [''1'', ''234'', ''56'']. list_all isDigit p" by code_simp
  have d2: "\<forall>p\<in>set [''12'', ''50'']. list_all isDigit p" by code_simp
  have d3: "\<forall>p\<in>set [''12'', ''5'']. list_all isDigit p" by code_simp
  have d4: "\<forall>p\<in>set [''12'', ''345'']. list_all isDigit p" by code_simp
  have n1: "''$1.234,56'' \<noteq> []" and n2: "''12,50'' \<noteq> []" and n3: "''12.5'' \<noteq> []"
    and n4: "''12.345'' \<noteq> []" by simp_all
  show ?thesis
    using parsePrice_separator_rules [OF n1 p1 d1] parsePrice_separator_rules [OF n2 p2 d2]
      parsePrice_separator_rules [OF n3 p3 d3] parsePrice_separator_rules [OF n4 p4 d4]
    by simp
qed

text \<open>
  C5, as stated, fails: a leading minus sign survives the cleaning and \<open>parseFloat\<close> reads
  it, so the result is negative; and the word Infinity, which has no digit, is read as
  a number and not answered by 0.
\<close>

theorem parsePrice_negative_counterexample:
  "parsePrice ''-5'' = Fin (- 5) \<and> js_lt (parsePrice ''-5'') (Fin 0) \<and>
   parsePrice ''Infinity'' = PInf"
  by code_simp

text \<open>
  C5, amended. For every input string parsePrice returns a number that is not \<open>NaN\<close>
  (the model has no failure case: no step of the source can raise on a string). The
  result is not negative unless the cleaned string handed to \<open>parseFloat\<close> (currency
  signs and white space removed, separators resolved) begins with a minus sign. The
  result is 0 for every string without a digit, the empty string among them, unless the
  cleaned string begins with the word Infinity, an optional sign before it.
\<close>

theorem parsePrice_nonneg_unless_minus:
  "parsePrice s \<noteq> NaN \<and>
   (take 1 (normalizeSeparators s) \<noteq> ''-'' \<longrightarrow> js_ge (parsePrice s) (Fin 0)) \<and>
   (list_all (\<lambda>c. \<not> isDigit c) s \<and>
    take 8 (normalizeSeparators s) \<noteq> ''Infinity'' \<and>
    take 9 (normalizeSeparators s) \<noteq> ''+Infinity'' \<and>
    take 9 (normalizeSeparators s) \<noteq> ''-Infinity'' \<longrightarrow> parsePrice s = Fin 0)"
proof -
  have a: "parsePrice s \<noteq> NaN"
    by (simp add: parsePrice_def Let_def isNaN_def)
  have b: "js_ge (parsePrice s) (Fin 0)" if "take 1 (normalizeSeparators s) \<noteq> ''-''"
  proof -
    have "normalizeSeparators s = [] \<or> \<not> isSpace (hd (normalizeSeparators s))"
      using normalizeSeparators_no_space [of "hd (normalizeSeparators s)" s]
      by (cases "normalizeSeparators s") auto
    from parseFloat_nonneg [OF that this] show ?thesis
      by (auto simp: parsePrice_def Let_def isNaN_def js_ge_def js_le_def js_eq_def)
  qed
  have c: "parsePrice s = Fin 0"
    if "list_all (\<lambda>c. \<not> isDigit c) s" "take 8 (normalizeSeparators s) \<noteq> ''Infinity''"
      "take 9 (normalizeSeparators s) \<noteq> ''+Infinity''"
      "take 9 (normalizeSeparators s) \<noteq> ''-Infinity''"
  proof -
    from normalizeSeparators_no_number [OF that(1)] obtain a b where
      ab: "normalizeSeparators s = a @ b" "list_all (\<lambda>c. \<not> isDigit c \<and> \<not> isSpace c) a"
        "b = [] \<or> (2 \<le> length a \<and> (hd a = CHR ''+'' \<or> hd a = CHR ''-'' \<longrightarrow> 3 \<le> length a))"
      by blast
    have "parseFloat (a @ b) = NaN"
      using that(2,3,4) unfolding ab(1) by (rule parseFloat_no_number [OF ab(2,3)])
    then show ?thesis using ab(1) by (simp add: parsePrice_of_NaN)
  qed
  show ?thesis using a b c by blast
qed

theorem parsePrice_nonneg_unless_minus_witness:
  "js_ge (parsePrice ''$ 1,234.56'') (Fin 0) \<and> parsePrice ''abc'' = Fin 0"
proof -
  have h1: "take 1 (normalizeSeparators ''$ 1,234.56'') \<noteq> ''-''" by code_simp
  have h2: "list_all (\<lambda>c. \<not> isDigit c) ''abc'' \<and>
    take 8 (normalizeSeparators ''abc'') \<noteq> ''Infinity'' \<and>
    take 9 (normalizeSeparators ''abc'') \<noteq> ''+Infinity'' \<and>
    take 9 (normalizeSeparators ''abc'') \<noteq> ''-Infinity''" by code_simp
  show ?thesis
    using parsePrice_nonneg_unless_minus [of "''$ 1,234.56''"]
      parsePrice_nonneg_unless_minus [of "''abc''"] h1 h2
    by blast
qed

section \<open>Properties of the rounding to doubles\<close>

text \<open>
  \<open>binade\<close> is the exponent of the binade (\<open>binade_lower\<close>, \<open>binade_upper\<close>). The rounding
  stays within half a unit in the last place (\<open>toDouble_near\<close>), leaves a double as it
  is (\<open>toDouble_fixed\<close>), and does not step over a double (\<open>toDouble_le\<close>).
\<close>

lemma rne_le: "q \<le> of_int k \<Longrightarrow> rne q \<le> k"
proof (cases "q = of_int k")
  case True
  then show ?thesis by (simp add: rne_def)
next
  case False
  assume "q \<le> of_int k"
  with False have "q < of_int k" by simp
  then have "\<lfloor>q\<rfloor> < k" by (simp add: floor_less_iff)
  moreover have "rne q \<le> \<lfloor>q\<rfloor> + 1" by (simp add: rne_def Let_def)
  ultimately show ?thesis by simp
qed

lemma rne_nonneg: "0 \<le> q \<Longrightarrow> 0 \<le> rne q"
proof -
  assume "0 \<le> q"
  then have "0 \<le> \<lfloor>q\<rfloor>" by simp
  moreover have "\<lfloor>q\<rfloor> \<le> rne q" by (simp add: rne_def Let_def)
  ultimately show ?thesis by (rule order_trans)
qed

lemma pow2_less_imp: "(2::rat) powi m < 2 powi n \<Longrightarrow> m < n"
proof (rule ccontr)
  assume a: "(2::rat) powi m < 2 powi n" and "\<not> m < n"
  then have "n \<le> m" by simp
  then have "(2::rat) powi n \<le> 2 powi m" by (intro power_int_increasing) simp_all
  with a show False by simp
qed

lemma binade_ge: "- 1022 \<le> binade x"
  by (simp add: binade_def Let_def split: prod.splits)

lemma binade_zero: "binade 0 = - 2"
  by code_simp

lemma quotient_bounds:
  assumes "0 < x" "quotient_of x = (p, q)"
  shows "2 powi (bitlen p - bitlen q - 1) \<le> x" "x < 2 powi (bitlen p - bitlen q + 1)"
proof -
  have q: "0 < q" using assms(2) by (rule quotient_of_denom_pos)
  have x: "x = of_int p / of_int q" using assms(2) by (rule quotient_of_div)
  have p: "0 < p" using assms(1) q unfolding x by (simp add: zero_less_divide_iff)
  have bp: "1 \<le> bitlen p" using p bitlen_eq_zero_iff [of p] bitlen_nonneg [of p] by linarith
  have bq: "1 \<le> bitlen q" using q bitlen_eq_zero_iff [of q] bitlen_nonneg [of q] by linarith
  have "(of_int (2 ^ nat (bitlen p - 1)) :: rat) \<le> of_int p"
    using bitlen_bounds [OF p] by (simp only: of_int_le_iff)
  then have p1: "(2::rat) powi (bitlen p - 1) \<le> of_int p"
    using bp by (simp add: power_int_def)
  have "(of_int p :: rat) < of_int (2 ^ nat (bitlen p))"
    using bitlen_bounds [OF p] by (simp only: of_int_less_iff)
  then have p2: "(of_int p :: rat) < 2 powi bitlen p"
    using bp by (simp add: power_int_def)
  have "(of_int (2 ^ nat (bitlen q - 1)) :: rat) \<le> of_int q"
    using bitlen_bounds [OF q] by (simp only: of_int_le_iff)
  then have q1: "(2::rat) powi (bitlen q - 1) \<le> of_int q"
    using bq by (simp add: power_int_def)
  have "(of_int q :: rat) < of_int (2 ^ nat (bitlen q))"
    using bitlen_bounds [OF q] by (simp only: of_int_less_iff)
  then have q2: "(of_int q :: rat) \<le> 2 powi bitlen q"
    using bq by (simp add: power_int_def)
  have "(2::rat) powi (bitlen p - bitlen q - 1) = 2 powi (bitlen p - 1) / 2 powi bitlen q"
    using power_int_diff [of "2::rat" "bitlen p - 1" "bitlen q"] by (simp add: algebra_simps)
  also have "\<dots> \<le> of_int p / of_int q"
    using p1 q2 q p by (intro frac_le) simp_all
  finally show "2 powi (bitlen p - bitlen q - 1) \<le> x" unfolding x .
  have "(of_int p :: rat) / of_int q < 2 powi bitlen p / 2 powi (bitlen q - 1)"
    using p2 q1 p q by (intro frac_less) simp_all
  also have "\<dots> = 2 powi (bitlen p - bitlen q + 1)"
    using power_int_diff [of "2::rat" "bitlen p" "bitlen q - 1"] by (simp add: algebra_simps)
  finally show "x < 2 powi (bitlen p - bitlen q + 1)" unfolding x .
qed

lemma binade_lower:
  assumes "0 < x" "- 1022 < binade x"
  shows "2 powi binade x \<le> x"
proof -
  obtain p q where pq: "quotient_of x = (p, q)" by (cases "quotient_of x")
  show ?thesis
    using quotient_bounds(1) [OF assms(1) pq] assms(2)
    by (auto simp: binade_def pq Let_def max_def split: if_splits)
qed

lemma binade_upper:
  assumes "0 < x"
  shows "x < 2 powi (binade x + 1)"
proof -
  obtain p q where pq: "quotient_of x = (p, q)" by (cases "quotient_of x")
  define e where "e = (if 2 powi (bitlen p - bitlen q) \<le> x then bitlen p - bitlen q
                       else bitlen p - bitlen q - 1)"
  have "x < 2 powi (e + 1)"
    using quotient_bounds(2) [OF assms pq] by (auto simp: e_def)
  also have "(2::rat) powi (e + 1) \<le> 2 powi (max e (- 1022) + 1)"
    by (intro power_int_increasing) simp_all
  finally show ?thesis by (simp add: binade_def pq Let_def e_def)
qed

lemma toDouble_le:
  assumes "0 \<le> x" "x \<le> of_int m * 2 powi e" "m < 2 ^ 53" "- 1074 \<le> e" "e \<le> 971"
  shows "\<exists>y. toDouble x = Fin y \<and> 0 \<le> y \<and> y \<le> of_int m * 2 powi e"
proof (cases "x = 0")
  case True
  then show ?thesis using assms(1,2) by (simp add: toDouble_def)
next
  case False
  then have x: "0 < x" using assms(1) by simp
  define d :: rat where "d = of_int m * 2 powi e"
  define E where "E = binade x"
  define u :: rat where "u = 2 powi (E - 52)"
  define y where "y = of_int (rne (x / u)) * u"
  have u: "0 < u" by (simp add: u_def)
  have top: "d < 2 powi (e + 53)"
  proof -
    have "(of_int m :: rat) < of_int (2 ^ 53)" using assms(3) by (simp only: of_int_less_iff)
    then have "of_int m * 2 powi e < (2::rat) ^ 53 * 2 powi e"
      by (intro mult_strict_right_mono) simp_all
    also have "\<dots> = 2 powi (e + 53)"
      using power_int_add [of "2::rat" e 53] by simp
    finally show ?thesis by (simp add: d_def)
  qed
  have Ee: "E - 52 \<le> e"
  proof (cases "- 1022 < E")
    case True
    then have "2 powi E \<le> x" using binade_lower [OF x] by (simp add: E_def)
    also have "x \<le> d" using assms(2) by (simp add: d_def)
    also note top
    finally have "E < e + 53" by (rule pow2_less_imp)
    then show ?thesis by simp
  next
    case False
    then show ?thesis using assms(4) by simp
  qed
  define K where "K = m * 2 ^ nat (e - (E - 52))"
  have Ku: "of_int K * u = d"
  proof -
    have "(2::rat) ^ nat (e - (E - 52)) = 2 powi (e - (E - 52))"
      using Ee by (simp add: power_int_def)
    then have "of_int K * u = of_int m * (2 powi (e - (E - 52)) * 2 powi (E - 52))"
      by (simp add: K_def u_def)
    also have "2 powi (e - (E - 52)) * 2 powi (E - 52) = (2::rat) powi e"
      using power_int_add [of "2::rat" "e - (E - 52)" "E - 52"] by simp
    finally show ?thesis by (simp add: d_def)
  qed
  have "x / u \<le> of_int K"
    using assms(2) u Ku by (simp add: divide_le_eq d_def)
  then have "rne (x / u) \<le> K" by (rule rne_le)
  then have "(of_int (rne (x / u)) :: rat) \<le> of_int K" by (simp only: of_int_le_iff)
  then have yd: "y \<le> d" using u Ku unfolding y_def by (metis mult_right_mono less_imp_le)
  have "0 \<le> rne (x / u)" using x u by (intro rne_nonneg) simp
  then have y0: "0 \<le> y" using u by (simp add: y_def)
  have fin: "\<not> 1023 < binade y"
  proof (cases "y = 0")
    case True
    then show ?thesis by (simp add: binade_zero)
  next
    case False
    then have yp: "0 < y" using y0 by simp
    show ?thesis
    proof
      assume b: "1023 < binade y"
      then have "2 powi binade y \<le> y" using binade_lower [OF yp] by simp
      also note yd
      also note top
      finally have "binade y < e + 53" by (rule pow2_less_imp)
      then show False using b assms(5) by simp
    qed
  qed
  have "toDouble x = Fin y"
    using x fin by (simp add: toDouble_def Let_def y_def u_def E_def)
  then show ?thesis using y0 yd by (simp add: d_def)
qed

lemma toDouble_le_int:
  assumes "0 \<le> x" "x \<le> of_int k" "k < 2 ^ 53"
  shows "\<exists>y. toDouble x = Fin y \<and> 0 \<le> y \<and> y \<le> of_int k"
  using toDouble_le [of x k 0] assms by simp

lemma decimal_values:
  "decimal (5 / 10) = Fin (1 / 2)"
  "decimal (8 / 10) = Fin (3602879701896397 / 4503599627370496)"
  "decimal (6 / 10) = Fin (5404319552844595 / 9007199254740992)"
  "decimal (4 / 10) = Fin (3602879701896397 / 9007199254740992)"
  by code_simp+

lemma rne_near: "\<bar>of_int (rne q) - q\<bar> \<le> 1 / 2"
proof -
  define r where "r = q - of_int \<lfloor>q\<rfloor>"
  have r: "0 \<le> r" "r < 1" unfolding r_def by linarith+
  have q: "q = of_int \<lfloor>q\<rfloor> + r" by (simp add: r_def)
  consider "r < 1 / 2" | "1 / 2 < r" | "r = 1 / 2" by linarith
  then show ?thesis
  proof cases
    case 1
    then have "rne q = \<lfloor>q\<rfloor>" by (simp add: rne_def Let_def r_def)
    then show ?thesis using 1 r q by simp
  next
    case 2
    then have "rne q = \<lfloor>q\<rfloor> + 1" by (simp add: rne_def Let_def r_def)
    then show ?thesis using 2 r q by simp
  next
    case 3
    then have "rne q = \<lfloor>q\<rfloor> \<or> rne q = \<lfloor>q\<rfloor> + 1" by (simp add: rne_def Let_def r_def)
    then show ?thesis using 3 q by auto
  qed
qed

lemma rne_of_int: "rne (of_int k) = k"
  by (simp add: rne_def)

lemma toDouble_minus: "toDouble (- x) = js_neg (toDouble x)"
  by (simp add: toDouble_def Let_def)

lemma toDouble_fixed_pos:
  assumes "0 < x" "toDouble x = Fin y"
  shows "toDouble y = Fin y"
proof -
  define E where "E = binade x"
  define u :: rat where "u = 2 powi (E - 52)"
  define n where "n = rne (x / u)"
  have u: "0 < u" by (simp add: u_def)
  have y: "y = of_int n * u" and fin: "\<not> 1023 < binade y"
    using assms by (auto simp: toDouble_def Let_def E_def u_def n_def split: if_splits)
  have n0: "0 \<le> n" unfolding n_def using assms(1) u by (intro rne_nonneg) simp
  show ?thesis
  proof (cases "n = 0")
    case True
    then show ?thesis by (simp add: y toDouble_def)
  next
    case False
    then have yp: "0 < y" using n0 u by (simp add: y)
    define E' where "E' = binade y"
    define u' :: rat where "u' = 2 powi (E' - 52)"
    have u': "0 < u'" by (simp add: u'_def)
    have "\<exists>k. y / u' = of_int k"
    proof (cases "E' \<le> E")
      case True
      have "u / u' = 2 powi (E - E')"
        using power_int_diff [of "2::rat" "E - 52" "E' - 52"] by (simp add: u_def u'_def)
      also have "\<dots> = 2 ^ nat (E - E')" using True by (simp add: power_int_def)
      finally have "of_int n * (u / u') = (of_int n :: rat) * 2 ^ nat (E - E')" by simp
      then have "y / u' = of_int (n * 2 ^ nat (E - E'))" by (simp add: y)
      then show ?thesis by blast
    next
      case False
      then have "- 1022 < E'" using binade_ge [of x] by (simp add: E_def)
      then have low: "2 powi E' \<le> y" using binade_lower [OF yp] by (simp add: E'_def)
      have pw: "(2::rat) powi (E + 1) = 2 ^ 53 * u"
      proof -
        have "(2::rat) powi (E + 1) = 2 powi (53 + (E - 52))"
          by (rule arg_cong [where f = "power_int 2"]) simp
        also have "\<dots> = 2 powi 53 * 2 powi (E - 52)" by (rule power_int_add) simp
        finally show ?thesis unfolding u_def power_int_numeral .
      qed
      have "x / u \<le> of_int (2 ^ 53)"
      proof -
        have "x < 2 powi (E + 1)" using binade_upper [OF assms(1)] by (simp add: E_def)
        then have "x < 2 ^ 53 * u" unfolding pw .
        then show ?thesis using u by (simp add: divide_le_eq)
      qed
      then have "n \<le> 2 ^ 53" unfolding n_def by (rule rne_le)
      then have "(of_int n :: rat) \<le> of_int (2 ^ 53)" by (simp only: of_int_le_iff)
      then have "y \<le> 2 ^ 53 * u" using u unfolding y by (simp add: mult_right_mono)
      then have up: "y \<le> 2 powi (E + 1)" unfolding pw .
      have "E' \<le> E + 1"
      proof (rule ccontr)
        assume "\<not> E' \<le> E + 1"
        then have "E + 1 < E'" by simp
        then have "(2::rat) powi (E + 1) < 2 powi E'"
          by (intro power_int_strict_increasing) simp_all
        with low up show False by simp
      qed
      with False have E': "E' = E + 1" by simp
      then have "y = 2 powi (E + 1)" using low up by simp
      then have "y / u' = 2 powi (E + 1) / 2 powi (E + 1 - 52)" by (simp add: u'_def E')
      also have "\<dots> = 2 powi 52"
        using power_int_diff [of "2::rat" "E + 1" "E + 1 - 52"] by simp
      also have "\<dots> = of_int (2 ^ 52)" by simp
      finally show ?thesis by blast
    qed
    then obtain k where k: "y / u' = of_int k" ..
    then have "of_int (rne (y / u')) * u' = y" using u' by (simp add: rne_of_int field_simps)
    then show ?thesis
      using yp fin by (simp add: toDouble_def Let_def E'_def u'_def)
  qed
qed

lemma toDouble_fixed: "toDouble x = Fin y \<Longrightarrow> toDouble y = Fin y"
proof -
  assume a: "toDouble x = Fin y"
  consider "x = 0" | "0 < x" | "x < 0" by linarith
  then show ?thesis
  proof cases
    case 1
    then show ?thesis using a by (auto simp: toDouble_def)
  next
    case 2
    then show ?thesis using a by (rule toDouble_fixed_pos)
  next
    case 3
    then have p: "0 < - x" by simp
    have "toDouble (- x) = Fin (- y)" using a by (simp add: toDouble_minus)
    from toDouble_fixed_pos [OF p this] have "toDouble (- y) = Fin (- y)" .
    then have "js_neg (toDouble y) = Fin (- y)" by (simp add: toDouble_minus)
    then show ?thesis by (cases "toDouble y") simp_all
  qed
qed

lemma dbl_fixed: "dbl (dbl a) = dbl a"
proof (cases a)
  case (Fin r)
  show ?thesis
  proof (cases "toDouble r")
    case (Fin y)
    then show ?thesis using toDouble_fixed [OF Fin] \<open>a = Fin r\<close> by (simp add: dbl_def)
  qed (simp_all add: dbl_def \<open>a = Fin r\<close>)
qed (simp_all add: dbl_def)

lemma toDouble_near:
  assumes "toDouble x = Fin y"
  shows "\<bar>y - x\<bar> \<le> 2 powi (binade \<bar>x\<bar> - 53)"
proof (cases "x = 0")
  case True
  then show ?thesis using assms by (auto simp: toDouble_def)
next
  case False
  define u :: rat where "u = 2 powi (binade \<bar>x\<bar> - 52)"
  define n where "n = rne (\<bar>x\<bar> / u)"
  have u: "0 < u" by (simp add: u_def)
  have half: "u / 2 = 2 powi (binade \<bar>x\<bar> - 53)"
  proof -
    have "(2::rat) powi (binade \<bar>x\<bar> - 53) = 2 powi (binade \<bar>x\<bar> - 52 - 1)"
      by (rule arg_cong [where f = "power_int 2"]) simp
    also have "\<dots> = 2 powi (binade \<bar>x\<bar> - 52) / 2 powi 1" by (rule power_int_diff) simp
    finally show ?thesis by (simp add: u_def)
  qed
  have y: "y = (if 0 < x then of_int n * u else - (of_int n * u))"
    using assms False by (auto simp: toDouble_def Let_def u_def n_def split: if_splits)
  have "of_int n * u - \<bar>x\<bar> = (of_int n - \<bar>x\<bar> / u) * u"
    using u by (simp add: left_diff_distrib)
  then have "\<bar>of_int n * u - \<bar>x\<bar>\<bar> = \<bar>of_int n - \<bar>x\<bar> / u\<bar> * \<bar>u\<bar>"
    by (simp only: abs_mult)
  also have "\<dots> = \<bar>of_int n - \<bar>x\<bar> / u\<bar> * u" using u by simp
  also have "\<dots> \<le> 1 / 2 * u"
    using rne_near [of "\<bar>x\<bar> / u"] u unfolding n_def by (intro mult_right_mono) simp_all
  finally have "\<bar>of_int n * u - \<bar>x\<bar>\<bar> \<le> u / 2" by simp
  moreover have "\<bar>y - x\<bar> = \<bar>of_int n * u - \<bar>x\<bar>\<bar>"
  proof (cases "0 < x")
    case True
    then show ?thesis using y by simp
  next
    case neg: False
    then have "y - x = - (of_int n * u - \<bar>x\<bar>)" using y False by simp
    then show ?thesis by (simp only: abs_minus)
  qed
  ultimately show ?thesis unfolding half by simp
qed

section \<open>Properties of the confidence score\<close>

lemma confidenceSum_numbers:
  "confidenceSum items =
   foldl d_add (Fin 0) (map (\<lambda>(p, q, c). js_or c (decimal (5 / 10))) (map numbers items))"
  by (simp add: confidenceSum_def foldl_map numbers_def)

lemma itemsTotal_numbers: "itemsTotal items = computedTotal (map numbers items)"
  by (simp add: itemsTotal_def computedTotal_def foldl_map numbers_def)

lemma totalConfidence_band:
  "totalConfidence x s =
   (if js_gt (dbl (total s)) (Fin 0) then band x (dbl (tax s)) (dbl (tip s)) (dbl (total s))
    else Fin 1)"
  by (simp add: totalConfidence_def band_def)

lemma calculateConfidence_formula:
  "calculateConfidence items s =
   confidence_amended (map numbers items) (dbl (tax s)) (dbl (tip s)) (dbl (total s))"
proof (cases "items = []")
  case True
  then show ?thesis by (simp add: calculateConfidence_def confidence_amended_def)
next
  case False
  then show ?thesis
    unfolding calculateConfidence_def confidence_amended_def Let_def round2_def mean_def
      confidenceSum_numbers itemsTotal_numbers totalConfidence_band
    by simp
qed

lemma totalConfidence_unit: "\<exists>t. totalConfidence x s = Fin t \<and> 0 \<le> t \<and> t \<le> 1"
proof -
  have "totalConfidence x s = Fin 1 \<or> totalConfidence x s = decimal (8 / 10) \<or>
        totalConfidence x s = decimal (5 / 10)"
    by (simp add: totalConfidence_def Let_def)
  then consider "totalConfidence x s = Fin 1"
    | "totalConfidence x s = Fin (3602879701896397 / 4503599627370496)"
    | "totalConfidence x s = Fin (1 / 2)"
    unfolding decimal_values by blast
  then show ?thesis
  proof cases
    case 1
    then show ?thesis by (intro exI [of _ 1]) simp
  next
    case 2
    then show ?thesis by (intro exI [of _ "3602879701896397 / 4503599627370496"]) simp
  next
    case 3
    then show ?thesis by (intro exI [of _ "1 / 2"]) simp
  qed
qed

lemma conf_foldl_bounded:
  assumes "\<forall>it\<in>set items. \<exists>c. confidence it = Fin c \<and> 0 \<le> c \<and> c \<le> 1"
    and "0 \<le> a" "a \<le> of_nat k" "k + length items < 2 ^ 53"
  shows "\<exists>m. foldl (\<lambda>sum it. d_add sum (js_or (dbl (confidence it)) (decimal (5 / 10)))) (Fin a) items =
              Fin m \<and> 0 \<le> m \<and> m \<le> of_nat (k + length items)"
  using assms
proof (induction items arbitrary: a k)
  case Nil
  then show ?case by simp
next
  case (Cons it items)
  then obtain c where c: "confidence it = Fin c" "0 \<le> c" "c \<le> 1" by auto
  from toDouble_le_int [of c 1] c obtain c1 where
    c1: "toDouble c = Fin c1" "0 \<le> c1" "c1 \<le> 1" by auto
  define c' where "c' = (if c1 = 0 then 1 / 2 else c1)"
  have "js_or (dbl (confidence it)) (decimal (5 / 10)) = Fin c'"
    unfolding decimal_values(1) c(1) by (simp add: c'_def js_or_def truthy_def dbl_def c1(1))
  moreover have "0 \<le> c'" "c' \<le> 1" using c1 by (simp_all add: c'_def)
  ultimately have c': "js_or (dbl (confidence it)) (decimal (5 / 10)) = Fin c'" "0 \<le> c'" "c' \<le> 1"
    by simp_all
  have k: "int (Suc k) < 2 ^ 53" using Cons.prems(4) by simp
  have "0 \<le> a + c'" "a + c' \<le> of_int (int (Suc k))"
    using Cons.prems(2,3) c'(2,3) by simp_all
  from toDouble_le_int [OF this k] obtain a' where
    a': "toDouble (a + c') = Fin a'" "0 \<le> a'" "a' \<le> of_nat (Suc k)" by auto
  have step: "d_add (Fin a) (Fin c') = Fin a'"
    by (simp add: d_add_def dbl_def a'(1))
  have "Suc k + length items < 2 ^ 53" using Cons.prems(4) by simp
  from Cons.IH [OF _ a'(2,3) this] Cons.prems(1) obtain m where
    m: "foldl (\<lambda>sum it. d_add sum (js_or (dbl (confidence it)) (decimal (5 / 10)))) (Fin a') items = Fin m"
      "0 \<le> m" "m \<le> of_nat (Suc k + length items)" by auto
  show ?case
    unfolding foldl_Cons c'(1) step using m by auto
qed

lemma confidenceSum_bounded:
  assumes "\<forall>it\<in>set items. \<exists>c. confidence it = Fin c \<and> 0 \<le> c \<and> c \<le> 1"
    and "length items < 2 ^ 53"
  shows "\<exists>m. confidenceSum items = Fin m \<and> 0 \<le> m \<and> m \<le> of_nat (length items)"
  using conf_foldl_bounded [OF assms(1), of 0 0] assms(2) unfolding confidenceSum_def by simp

lemma round2_unit:
  assumes "0 \<le> x" "x \<le> 1"
  shows "\<exists>r. d_div (js_round (d_mul (Fin x) (Fin 100))) (Fin 100) = Fin r \<and> 0 \<le> r \<and> r \<le> 1"
proof -
  have "0 \<le> x * 100" "x * 100 \<le> of_int 100" using assms by simp_all
  from toDouble_le_int [OF this] obtain h where
    h: "toDouble (x * 100) = Fin h" "0 \<le> h" "h \<le> 100" by auto
  define z where "z = \<lfloor>h + 1 / 2\<rfloor>"
  have z0: "0 \<le> z" using h(2) by (simp add: z_def)
  have "h + 1 / 2 < 101" using h(3) by simp
  then have "z < 101" by (simp add: z_def floor_less_iff)
  then have z1: "z \<le> 100" by simp
  have "0 \<le> (of_int z :: rat) / 100" "(of_int z :: rat) / 100 \<le> of_int 1"
    using z0 z1 by simp_all
  from toDouble_le_int [OF this] obtain r where
    r: "toDouble (of_int z / 100) = Fin r" "0 \<le> r" "r \<le> 1" by auto
  have "d_div (js_round (d_mul (Fin x) (Fin 100))) (Fin 100) = Fin r"
    by (simp add: d_mul_def d_div_def dbl_def h(1) js_round_def z_def [symmetric] r(1))
  then show ?thesis using r(2,3) by simp
qed

lemma calculateConfidence_unit:
  assumes "\<forall>it\<in>set items. \<exists>c. confidence it = Fin c \<and> 0 \<le> c \<and> c \<le> 1"
    and "length items < 2 ^ 32"
  shows "\<exists>r. calculateConfidence items s = Fin r \<and> 0 \<le> r \<and> r \<le> 1"
proof (cases "items = []")
  case True
  then show ?thesis by (simp add: calculateConfidence_def)
next
  case False
  define n :: rat where "n = of_nat (length items)"
  have n: "0 < n" using False by (simp add: n_def)
  have "length items < 2 ^ 53" using assms(2) by simp
  from confidenceSum_bounded [OF assms(1) this] obtain m where
    m: "confidenceSum items = Fin m" "0 \<le> m" "m \<le> n" by (auto simp: n_def)
  have "0 \<le> m / n" "m / n \<le> of_int 1" using m n by (simp_all add: divide_le_eq)
  from toDouble_le_int [OF this] obtain q where
    q: "toDouble (m / n) = Fin q" "0 \<le> q" "q \<le> 1" by auto
  have mean: "d_div (confidenceSum items) (Fin n) = Fin q"
    using n by (simp add: d_div_def dbl_def m(1) q(1))
  define c6 :: rat where "c6 = 5404319552844595 / 9007199254740992"
  define c4 :: rat where "c4 = 3602879701896397 / 9007199254740992"
  have c6: "c6 = of_int 5404319552844595 * 2 powi (- 53)"
    and c4: "c4 = of_int 3602879701896397 * 2 powi (- 53)"
    by (simp_all add: c6_def c4_def power_int_minus)
  have "0 \<le> q * c6" "q * c6 \<le> of_int 5404319552844595 * 2 powi (- 53)"
    using q(2,3) unfolding c6 [symmetric] by (simp_all add: c6_def mult_left_le_one_le)
  from toDouble_le [OF this] obtain a where
    a: "toDouble (q * c6) = Fin a" "0 \<le> a" "a \<le> c6" unfolding c6 [symmetric] by auto
  obtain t where t: "totalConfidence (itemsTotal items) s = Fin t" "0 \<le> t" "t \<le> 1"
    using totalConfidence_unit by blast
  have "0 \<le> t * c4" "t * c4 \<le> of_int 3602879701896397 * 2 powi (- 53)"
    using t(2,3) unfolding c4 [symmetric] by (simp_all add: c4_def mult_left_le_one_le)
  from toDouble_le [OF this] obtain b where
    b: "toDouble (t * c4) = Fin b" "0 \<le> b" "b \<le> c4" unfolding c4 [symmetric] by auto
  have "c6 + c4 = 1" by (simp add: c6_def c4_def)
  then have "0 \<le> a + b" "a + b \<le> of_int 1" using a(2,3) b(2,3) by simp_all
  from toDouble_le_int [OF this] obtain x where
    x: "toDouble (a + b) = Fin x" "0 \<le> x" "x \<le> 1" by auto
  have l6: "decimal (6 / 10) = Fin c6" and l4: "decimal (4 / 10) = Fin c4"
    unfolding c6_def c4_def by (rule decimal_values)+
  have am: "d_mul (Fin q) (Fin c6) = Fin a" by (simp add: d_mul_def dbl_def a(1))
  have bm: "d_mul (Fin t) (Fin c4) = Fin b" by (simp add: d_mul_def dbl_def b(1))
  have ad: "d_add (Fin a) (Fin b) = Fin x" by (simp add: d_add_def dbl_def x(1))
  have blend: "d_add (d_mul (d_div (confidenceSum items) (Fin n)) (decimal (6 / 10)))
                 (d_mul (totalConfidence (itemsTotal items) s) (decimal (4 / 10))) = Fin x"
    unfolding mean t(1) l6 l4 am bm ad ..
  show ?thesis
    using round2_unit [OF x(2,3)] False
    unfolding calculateConfidence_def Let_def n_def [symmetric] blend by simp
qed

text \<open>
  C7, as stated, fails: with no declared total the source skips the comparison and the
  consistency term is 1, where the sentence gives 0.5 (the difference 3 is beyond the
  tolerance 0), so that the score is 0.91 against the sentence's 0.71. And an item
  confidence of 0 is counted as 0.5: for one such item, priced at the declared total,
  the score is 0.7 against the sentence's 0.4.
\<close>

theorem calculateConfidence_counterexample:
  "calculateConfidence
     [\<lparr>name = ''Tea'', price = Fin 3, quantity = Fin 1, raw = ''Tea 3.00'',
       confidence = Fin (85 / 100)\<rparr>]
     \<lparr>tax = Fin 0, tip = Fin 0, total = Fin 0, subtotal = Fin 0\<rparr> = decimal (91 / 100) \<and>
   confidence_as_stated
     (map numbers [\<lparr>name = ''Tea'', price = Fin 3, quantity = Fin 1, raw = ''Tea 3.00'',
       confidence = Fin (85 / 100)\<rparr>])
     (Fin 0) (Fin 0) (Fin 0) = decimal (71 / 100) \<and>
   decimal (91 / 100) \<noteq> decimal (71 / 100) \<and>
   calculateConfidence
     [\<lparr>name = ''Tea'', price = Fin 3, quantity = Fin 1, raw = ''Tea 3.00'',
       confidence = Fin 0\<rparr>]
     \<lparr>tax = Fin 0, tip = Fin 0, total = Fin 3, subtotal = Fin 0\<rparr> = decimal (70 / 100) \<and>
   confidence_as_stated
     (map numbers [\<lparr>name = ''Tea'', price = Fin 3, quantity = Fin 1, raw = ''Tea 3.00'',
       confidence = Fin 0\<rparr>])
     (Fin 0) (Fin 0) (Fin 3) = decimal (40 / 100) \<and>
   decimal (70 / 100) \<noteq> decimal (40 / 100)"
  by code_simp

text \<open>
  C7, amended. calculateConfidence returns exactly 0 for an empty item list. For every
  list of items and every summary it returns the score of \<open>confidence_amended\<close>: in the
  arithmetic of doubles, with sums taken from left to right, 0.6 times the mean item
  confidence (a confidence of 0 or \<open>NaN\<close> counting as 0.5) plus 0.4 times a consistency
  term, the sum rounded to 2 decimal places; the term is 1 when the declared total is
  not positive, and otherwise 1, 0.8 or 0.5 as the difference between the computed and
  the declared total is within 5 percent of the total, within twice that, or beyond.
  Whenever every item confidence lies in [0,1] the result lies in [0,1], whatever the
  prices, quantities, tax, tip and total are (the length of an array is below 2^32).
\<close>

theorem calculateConfidence_amended:
  "calculateConfidence [] s = Fin 0 \<and>
   calculateConfidence items s =
     confidence_amended (map numbers items) (dbl (tax s)) (dbl (tip s)) (dbl (total s)) \<and>
   ((\<forall>it\<in>set items. \<exists>c. confidence it = Fin c \<and> 0 \<le> c \<and> c \<le> 1) \<and> length items < 2 ^ 32 \<longrightarrow>
      (\<exists>r. calculateConfidence items s = Fin r \<and> 0 \<le> r \<and> r \<le> 1))"
  using calculateConfidence_formula [of items s] calculateConfidence_unit [of items s]
  by (simp add: calculateConfidence_def)

theorem calculateConfidence_amended_witness:
  "calculateConfidence
     [\<lparr>name = ''Tea'', price = Fin (105 / 100), quantity = Fin 1, raw = ''Tea 1.05'',
       confidence = Fin (85 / 100)\<rparr>]
     \<lparr>tax = Fin 0, tip = Fin 0, total = Fin 1, subtotal = Fin 0\<rparr> = decimal (83 / 100) \<and>
   calculateConfidence
     [\<lparr>name = ''Soda'', price = Fin 3, quantity = Fin 1, raw = ''Soda 3.00'',
       confidence = Fin (85 / 100)\<rparr>,
      \<lparr>name = ''Coffee'', price = Fin 3, quantity = Fin 1, raw = ''Coffee 3'',
       confidence = Fin (7 / 10)\<rparr>]
     \<lparr>tax = Fin 0, tip = Fin 0, total = Fin 20, subtotal = Fin 0\<rparr> = decimal (66 / 100) \<and>
   (\<exists>r. calculateConfidence
     [\<lparr>name = ''Soda'', price = Fin 3, quantity = Fin 1, raw = ''Soda 3.00'',
       confidence = Fin (85 / 100)\<rparr>,
      \<lparr>name = ''Coffee'', price = Fin 3, quantity = Fin 1, raw = ''Coffee 3'',
       confidence = Fin (7 / 10)\<rparr>]
     \<lparr>tax = Fin 0, tip = Fin 0, total = Fin 20, subtotal = Fin 0\<rparr> = Fin r \<and> 0 \<le> r \<and> r \<le> 1)"
proof -
  define tea where "tea = [\<lparr>name = ''Tea'', price = Fin (105 / 100), quantity = Fin 1,
    raw = ''Tea 1.05'', confidence = Fin (85 / 100)\<rparr>]"
  define drinks where "drinks = [\<lparr>name = ''Soda'', price = Fin 3, quantity = Fin 1,
    raw = ''Soda 3.00'', confidence = Fin (85 / 100)\<rparr>,
    \<lparr>name = ''Coffee'', price = Fin 3, quantity = Fin 1, raw = ''Coffee 3'',
     confidence = Fin (7 / 10)\<rparr>]"
  define s1 where "s1 = \<lparr>tax = Fin 0, tip = Fin 0, total = Fin 1, subtotal = Fin 0\<rparr>"
  define s20 where "s20 = \<lparr>tax = Fin 0, tip = Fin 0, total = Fin 20, subtotal = Fin 0\<rparr>"
  have f1: "confidence_amended (map numbers tea) (dbl (tax s1)) (dbl (tip s1)) (dbl (total s1)) =
            decimal (83 / 100)"
    unfolding tea_def s1_def by code_simp
  have f2: "confidence_amended (map numbers drinks) (dbl (tax s20)) (dbl (tip s20))
              (dbl (total s20)) = decimal (66 / 100)"
    unfolding drinks_def s20_def by code_simp
  have h: "(\<forall>it\<in>set drinks. \<exists>c. confidence it = Fin c \<and> 0 \<le> c \<and> c \<le> 1) \<and>
           length drinks < 2 ^ 32"
    unfolding drinks_def by (auto intro: exI [of _ "85 / 100"] exI [of _ "7 / 10"])
  show ?thesis
    using calculateConfidence_amended [of s1 tea] calculateConfidence_amended [of s20 drinks]
      f1 f2 h
    unfolding tea_def drinks_def s1_def s20_def by metis
qed

section \<open>Properties of the merge of similar items\<close>

lemma joiners_insert:
  "j \<notin> set js \<Longrightarrow> joiners items thr i (insert j u) js = joiners items thr i u js"
  unfolding joiners_def by (intro filter_cong) auto

lemma inner_loop:
  "distinct js \<Longrightarrow>
   fold (merge_inner items thr i) js (g, u) =
     (g @ map ((!) items) (joiners items thr i u js), u \<union> set (joiners items thr i u js))"
proof (induction js arbitrary: g u)
  case Nil
  then show ?case by (simp add: joiners_def)
next
  case (Cons j js)
  then have d: "distinct js" "j \<notin> set js" by simp_all
  show ?case
  proof (cases "j \<notin> u \<and> similar thr (items ! i) (items ! j)")
    case True
    have step: "merge_inner items thr i j (g, u) = (g @ [items ! j], insert j u)"
      using True by (simp add: merge_inner_def)
    have jn: "joiners items thr i u (j # js) = j # joiners items thr i u js"
      using True by (simp add: joiners_def)
    have "fold (merge_inner items thr i) (j # js) (g, u) =
          fold (merge_inner items thr i) js (g @ [items ! j], insert j u)"
      by (simp add: step)
    also have "\<dots> = ((g @ [items ! j]) @ map ((!) items) (joiners items thr i (insert j u) js),
                     insert j u \<union> set (joiners items thr i (insert j u) js))"
      by (rule Cons.IH [OF d(1)])
    also have "\<dots> = (g @ map ((!) items) (joiners items thr i u (j # js)),
                     u \<union> set (joiners items thr i u (j # js)))"
      unfolding joiners_insert [OF d(2)] jn by simp
    finally show ?thesis .
  next
    case False
    have step: "merge_inner items thr i j (g, u) = (g, u)"
      using False by (auto simp: merge_inner_def)
    have jn: "joiners items thr i u (j # js) = joiners items thr i u js"
      using False by (auto simp: joiners_def)
    have "fold (merge_inner items thr i) (j # js) (g, u) = fold (merge_inner items thr i) js (g, u)"
      by (simp add: step)
    then show ?thesis unfolding jn using Cons.IH [OF d(1), of g u] by simp
  qed
qed

lemma outer_loop:
  "n = length items \<Longrightarrow> k = n - i \<Longrightarrow>
   fst (fold (merge_outer items thr) [i..<n] (m, u)) =
     m @ map mergeGroup (greedyGroups thr (map ((!) items) (filter (\<lambda>j. j \<notin> u) [i..<n])))"
proof (induction k arbitrary: i m u)
  case 0
  then show ?case by simp
next
  case (Suc k)
  then have i: "i < n" and k: "k = n - Suc i" by simp_all
  have range: "[i..<n] = i # [Suc i..<n]" using i by (rule upt_conv_Cons)
  show ?case
  proof (cases "i \<in> u")
    case True
    have step: "merge_outer items thr i (m, u) = (m, u)"
      using True by (simp add: merge_outer_def)
    have "filter (\<lambda>j. j \<notin> u) [i..<n] = filter (\<lambda>j. j \<notin> u) [Suc i..<n]"
      unfolding range using True by simp
    then show ?thesis
      unfolding range fold_Cons comp_apply step
      using Suc.IH [OF Suc.prems(1) k, of m u] by (simp add: range)
  next
    case False
    define js where "js = joiners items thr i (insert i u) [Suc i..<n]"
    define free where "free = filter (\<lambda>j. j \<notin> u) [Suc i..<n]"
    have inner: "fold (merge_inner items thr i) [Suc i..<length items] ([items ! i], insert i u) =
                 (items ! i # map ((!) items) js, insert i u \<union> set js)"
      unfolding js_def using inner_loop [of "[Suc i..<n]" items thr i "[items ! i]" "insert i u"]
        Suc.prems(1) by simp
    have step: "merge_outer items thr i (m, u) =
                (m @ [mergeGroup (items ! i # map ((!) items) js)], insert i u \<union> set js)"
      using False by (simp add: merge_outer_def inner)
    have js: "map ((!) items) js = filter (similar thr (items ! i)) (map ((!) items) free)"
      unfolding js_def free_def joiners_def filter_map filter_filter comp_def
      by (rule arg_cong [where f = "map ((!) items)"], intro filter_cong) auto
    have rest: "map ((!) items) (filter (\<lambda>j. j \<notin> insert i u \<union> set js) [Suc i..<n]) =
                filter (\<lambda>y. \<not> similar thr (items ! i) y) (map ((!) items) free)"
      unfolding js_def free_def joiners_def filter_map filter_filter comp_def
      by (rule arg_cong [where f = "map ((!) items)"], intro filter_cong) auto
    have all: "map ((!) items) (filter (\<lambda>j. j \<notin> u) [i..<n]) = items ! i # map ((!) items) free"
      unfolding range free_def using False by simp
    have "fst (fold (merge_outer items thr) [i..<n] (m, u)) =
          fst (fold (merge_outer items thr) [Suc i..<n]
                 (m @ [mergeGroup (items ! i # map ((!) items) js)], insert i u \<union> set js))"
      unfolding range fold_Cons comp_apply step ..
    also have "\<dots> = (m @ [mergeGroup (items ! i # map ((!) items) js)]) @
                     map mergeGroup (greedyGroups thr
                       (map ((!) items) (filter (\<lambda>j. j \<notin> insert i u \<union> set js) [Suc i..<n])))"
      by (rule Suc.IH [OF Suc.prems(1) k])
    also have "\<dots> = m @ map mergeGroup (greedyGroups thr (map ((!) items) (filter (\<lambda>j. j \<notin> u) [i..<n])))"
      unfolding all rest js by simp
    finally show ?thesis .
  qed
qed

lemma mergeSimilarItems_greedy:
  "mergeSimilarItems items thr = map mergeGroup (greedyGroups thr items)"
  using outer_loop [of "length items" items "length items" 0 thr "[]" "{}"]
  by (simp add: mergeSimilarItems_def map_nth)

lemma price_foldl_fin:
  "\<forall>it\<in>set g. f it = Fin (F it) \<Longrightarrow>
   foldl (\<lambda>sum it. js_add sum (f it)) (Fin a) g = Fin (a + sum_list (map F g))"
  by (induction g arbitrary: a) (auto simp: add.assoc)

lemma js_max2_fin: "js_max2 (Fin a) (Fin b) = Fin (max a b)"
  by (auto simp: js_max2_def)

lemma max_foldl_fin:
  "\<forall>it\<in>set g. f it = Fin (F it) \<Longrightarrow>
   foldl js_max2 (Fin a) (map f g) = Fin (Max (insert a (F ` set g)))"
proof (induction g arbitrary: a)
  case Nil
  then show ?case by simp
next
  case (Cons it g)
  have "Max (insert (max a (F it)) (F ` set g)) = Max (insert a (F ` set (it # g)))"
  proof -
    have "Max (insert a (insert (F it) (F ` set g))) = max a (Max (insert (F it) (F ` set g)))"
      by (rule Max_insert) simp_all
    also have "\<dots> = max a (max (F it) (Max (insert (F it) (F ` set g))))"
      by (simp add: max.absorb2)
    finally have l: "Max (insert a (F ` set (it # g))) = max a (Max (insert (F it) (F ` set g)))"
      by simp
    show ?thesis
    proof (cases "g = []")
      case True
      then show ?thesis by simp
    next
      case False
      then have ne: "F ` set g \<noteq> {}" by simp
      have r1: "Max (insert (max a (F it)) (F ` set g)) = max (max a (F it)) (Max (F ` set g))"
        using ne by simp
      have r2: "Max (insert (F it) (F ` set g)) = max (F it) (Max (F ` set g))"
        using ne by simp
      show ?thesis unfolding l r1 r2 by (simp add: max.assoc)
    qed
  qed
  then show ?case using Cons by (simp add: js_max2_fin)
qed

lemma js_max_fin:
  assumes "g \<noteq> []" "\<forall>it\<in>set g. f it = Fin (F it)"
  shows "js_max (map f g) = Fin (Max (F ` set g))"
proof -
  obtain x xs where g: "g = x # xs" using assms(1) by (cases g) auto
  have x: "f x = Fin (F x)" and xs: "\<forall>it\<in>set xs. f it = Fin (F it)" using assms(2) g by simp_all
  have "js_max (map f g) = foldl js_max2 (Fin (F x)) (map f xs)"
    by (simp add: js_max_def g x js_max2_def)
  then show ?thesis using max_foldl_fin [OF xs, of "F x"] g by simp
qed

lemma mergeGroup_fin:
  assumes "g \<noteq> []"
    and "\<forall>it\<in>set g. price it = Fin (P it) \<and> quantity it = Fin (Q it) \<and> confidence it = Fin (C it)"
  shows "m_name (mergeGroup g) = name (hd g)"
    and "m_price (mergeGroup g) = Fin (sum_list (map P g) / of_nat (length g))"
    and "m_quantity (mergeGroup g) = Fin (sum_list (map Q g))"
    and "m_confidence (mergeGroup g) = Fin (Max (C ` set g) * (95 / 100))"
proof -
  have n: "(of_nat (length g) :: rat) \<noteq> 0" using assms(1) by simp
  show "m_name (mergeGroup g) = name (hd g)"
    using assms(1) by (simp add: mergeGroup_def hd_conv_nth)
  have p: "\<forall>it\<in>set g. price it = Fin (P it)" using assms(2) by simp
  show "m_price (mergeGroup g) = Fin (sum_list (map P g) / of_nat (length g))"
    using n by (simp add: mergeGroup_def price_foldl_fin [OF p])
  have q: "\<forall>it\<in>set g. quantity it = Fin (Q it)" using assms(2) by simp
  show "m_quantity (mergeGroup g) = Fin (sum_list (map Q g))"
    by (simp add: mergeGroup_def price_foldl_fin [OF q])
  have c: "\<forall>it\<in>set g. confidence it = Fin (C it)" using assms(2) by simp
  show "m_confidence (mergeGroup g) = Fin (Max (C ` set g) * (95 / 100))"
    by (simp add: mergeGroup_def js_max_fin [OF assms(1) c])
qed

lemma mergeGroup_single:
  "mergeGroup [x] =
     \<lparr>m_name = name x, m_price = price x, m_quantity = quantity x,
      m_confidence = js_mul (confidence x) (Fin (95 / 100)), mergedFrom = None\<rparr>"
proof -
  have p: "js_div (js_add (Fin 0) (price x)) (Fin 1) = price x"
    by (cases "price x") (simp_all add: js_inf_def js_sign_def)
  have q: "js_add (Fin 0) (quantity x) = quantity x"
    by (cases "quantity x") simp_all
  have c: "js_max [confidence x] = confidence x"
    by (cases "confidence x") (simp_all add: js_max_def js_max2_def)
  show ?thesis by (simp add: mergeGroup_def p q c)
qed

text \<open>
  C4, as stated, fails for a group of size 1: its confidence is multiplied by 0.95 like
  that of every other group (0.85 becomes 0.8075).
\<close>

theorem mergeSimilarItems_single_counterexample:
  "mergeSimilarItems
     [\<lparr>name = ''Soda'', price = Fin 3, quantity = Fin 1, raw = ''Soda $3.00'',
       confidence = Fin (85 / 100)\<rparr>] (Fin (85 / 100)) =
     [\<lparr>m_name = ''Soda'', m_price = Fin 3, m_quantity = Fin 1,
       m_confidence = Fin (323 / 400), mergedFrom = None\<rparr>] \<and>
   Fin (323 / 400) \<noteq> Fin (85 / 100)"
  by code_simp

text \<open>
  C4, amended. mergeSimilarItems merges each greedy similarity group into a single item:
  the result is the list of the merged groups, in order. For a group of finite numbers
  the merged item has the seed's name, the arithmetic mean of the prices, the sum of
  the quantities, and the greatest confidence multiplied by 0.95. A group of size 1
  keeps its name, price and quantity, and its confidence is multiplied by 0.95 as well.
\<close>

theorem mergeSimilarItems_groups:
  "mergeSimilarItems items thr = map mergeGroup (greedyGroups thr items) \<and>
   (g \<noteq> [] \<and>
    (\<forall>it\<in>set g. price it = Fin (P it) \<and> quantity it = Fin (Q it) \<and> confidence it = Fin (C it)) \<longrightarrow>
      m_name (mergeGroup g) = name (hd g) \<and>
      m_price (mergeGroup g) = Fin (sum_list (map P g) / of_nat (length g)) \<and>
      m_quantity (mergeGroup g) = Fin (sum_list (map Q g)) \<and>
      m_confidence (mergeGroup g) = Fin (Max (C ` set g) * (95 / 100))) \<and>
   mergeGroup [x] =
     \<lparr>m_name = name x, m_price = price x, m_quantity = quantity x,
      m_confidence = js_mul (confidence x) (Fin (95 / 100)), mergedFrom = None\<rparr>"
  using mergeSimilarItems_greedy [of items thr] mergeGroup_fin [of g P Q C] mergeGroup_single [of x]
  by blast

theorem mergeSimilarItems_groups_witness:
  "m_name (mergeGroup
     [\<lparr>name = ''Wings'', price = Fin 12, quantity = Fin 1, raw = ''a'', confidence = Fin (85 / 100)\<rparr>,
      \<lparr>name = ''Wing'', price = Fin 11, quantity = Fin 2, raw = ''b'', confidence = Fin (7 / 10)\<rparr>]) = ''Wings'' \<and>
   m_price (mergeGroup
     [\<lparr>name = ''Wings'', price = Fin 12, quantity = Fin 1, raw = ''a'', confidence = Fin (85 / 100)\<rparr>,
      \<lparr>name = ''Wing'', price = Fin 11, quantity = Fin 2, raw = ''b'', confidence = Fin (7 / 10)\<rparr>]) = Fin (23 / 2) \<and>
   m_quantity (mergeGroup
     [\<lparr>name = ''Wings'', price = Fin 12, quantity = Fin 1, raw = ''a'', confidence = Fin (85 / 100)\<rparr>,
      \<lparr>name = ''Wing'', price = Fin 11, quantity = Fin 2, raw = ''b'', confidence = Fin (7 / 10)\<rparr>]) = Fin 3 \<and>
   m_confidence (mergeGroup
     [\<lparr>name = ''Wings'', price = Fin 12, quantity = Fin 1, raw = ''a'', confidence = Fin (85 / 100)\<rparr>,
      \<lparr>name = ''Wing'', price = Fin 11, quantity = Fin 2, raw = ''b'', confidence = Fin (7 / 10)\<rparr>]) = Fin (323 / 400)"
proof -
  let ?a = "\<lparr>name = ''Wings'', price = Fin 12, quantity = Fin 1, raw = ''a'', confidence = Fin (85 / 100)\<rparr>"
  let ?b = "\<lparr>name = ''Wing'', price = Fin 11, quantity = Fin 2, raw = ''b'', confidence = Fin (7 / 10)\<rparr>"
  have h: "[?a, ?b] \<noteq> [] \<and>
           (\<forall>it\<in>set [?a, ?b]. price it = Fin (finval (price it)) \<and>
              quantity it = Fin (finval (quantity it)) \<and> confidence it = Fin (finval (confidence it)))"
    by (simp add: finval_def)
  show ?thesis
    using mergeSimilarItems_groups [of "[]" "Fin 0" "[?a, ?b]" "\<lambda>it. finval (price it)"
        "\<lambda>it. finval (quantity it)" "\<lambda>it. finval (confidence it)" ?a] h
    by (simp add: finval_def)
qed

section \<open>Properties of the receipt parser\<close>

lemma dottedRule_price: "dottedRule line = Some (Item n p q c) \<Longrightarrow> js_gt p (Fin 0)"
  by (auto simp: dottedRule_def Let_def split: option.splits if_splits)

lemma summaryRule_not_item: "summaryRule line \<noteq> Some (Item n p q c)"
  by (auto simp: summaryRule_def split: option.splits)

lemma itemRule_price: "itemRule line = Some (Item n p q c) \<Longrightarrow> js_gt p (Fin 0)"
  by (auto simp: itemRule_def Let_def split: option.splits if_splits)

lemma fallbackRule_price: "fallbackRule line = Some (Item n p q c) \<Longrightarrow> js_gt p (Fin 0)"
  by (auto simp: fallbackRule_def Let_def split: option.splits if_splits)

lemma categorizeLine_item_price: "categorizeLine line = Item n p q c \<Longrightarrow> js_gt p (Fin 0)"
  using dottedRule_price [of line n p q c] summaryRule_not_item [of line n p q c]
    itemRule_price [of line n p q c] fallbackRule_price [of line n p q c]
  by (auto simp: categorizeLine_def split: option.splits)

lemma extractItems_foldl_price:
  "\<forall>it\<in>set acc. js_gt (price it) (Fin 0) \<Longrightarrow>
   \<forall>it\<in>set (foldl (\<lambda>items line.
              case categorizeLine line of
                Item nm pr qty conf \<Rightarrow>
                  items @ [\<lparr>name = cleanItemName nm, price = pr, quantity = js_or qty (Fin 1),
                            raw = line, confidence = conf\<rparr>]
              | _ \<Rightarrow> items) acc lines). js_gt (price it) (Fin 0)"
proof (induction lines arbitrary: acc)
  case Nil
  then show ?case by simp
next
  case (Cons line lines)
  show ?case
  proof (cases "categorizeLine line")
    case (Item n p q c)
    then have "js_gt p (Fin 0)" by (rule categorizeLine_item_price)
    then show ?thesis
      using Item Cons.prems by (auto intro!: Cons.IH)
  qed (use Cons in auto)
qed

lemma extractItems_price: "\<forall>it\<in>set (extractItems lines). js_gt (price it) (Fin 0)"
  unfolding extractItems_def by (rule extractItems_foldl_price) simp

lemma parseReceiptText_items:
  "r_items (parseReceiptText nd text) = (if text = [] then [] else extractItems (preprocessText text))"
  by (simp add: parseReceiptText_def createEmptyReceipt_def Let_def)

lemma map_filter_snoc:
  "List.map_filter sel (cs @ [c]) =
   List.map_filter sel cs @ (case sel c of None \<Rightarrow> [] | Some a \<Rightarrow> [a])"
  by (simp add: List.map_filter_def split: option.splits)

lemma lastOf_snoc:
  "lastOf sel (cs @ [c]) = (case sel c of None \<Rightarrow> lastOf sel cs | Some a \<Rightarrow> a)"
  by (cases "List.map_filter sel cs")
     (simp_all add: lastOf_def map_filter_snoc split: option.splits list.splits)

lemma foldSummary_Nil:
  "foldSummary [] = \<lparr>tax = Fin 0, tip = Fin 0, total = Fin 0, subtotal = Fin 0\<rparr>"
  by (simp add: foldSummary_def)

lemma foldSummary_snoc:
  "foldSummary (lines @ [line]) = summaryStep (foldSummary lines) (categorizeLine line)"
  by (simp add: foldSummary_def)

lemma sel_simps:
  "taxOf (Tax a) = Some a" "taxOf (Tip a) = None" "taxOf (Total a) = None"
  "taxOf (Subtotal a) = None" "taxOf (Item n p q c) = None" "taxOf Unknown = None"
  "tipOf (Tax a) = None" "tipOf (Tip a) = Some a" "tipOf (Total a) = None"
  "tipOf (Subtotal a) = None" "tipOf (Item n p q c) = None" "tipOf Unknown = None"
  "totalOf (Tax a) = None" "totalOf (Tip a) = None" "totalOf (Total a) = Some a"
  "totalOf (Subtotal a) = None" "totalOf (Item n p q c) = None" "totalOf Unknown = None"
  "subtotalOf (Tax a) = None" "subtotalOf (Tip a) = None" "subtotalOf (Total a) = None"
  "subtotalOf (Subtotal a) = Some a" "subtotalOf (Item n p q c) = None" "subtotalOf Unknown = None"
  by (simp_all add: taxOf_def tipOf_def totalOf_def subtotalOf_def)

lemma foldSummary_last:
  "foldSummary lines =
     \<lparr>tax = lastOf taxOf (map categorizeLine lines),
      tip = lastOf tipOf (map categorizeLine lines),
      total = lastOf totalOf (map categorizeLine lines),
      subtotal = lastOf subtotalOf (map categorizeLine lines)\<rparr>"
proof (induction lines rule: rev_induct)
  case Nil
  show ?case by (simp add: foldSummary_Nil lastOf_def)
next
  case (snoc line lines)
  show ?case
    unfolding foldSummary_snoc snoc.IH
    by (cases "categorizeLine line")
       (simp_all add: summaryStep_def lastOf_snoc sel_simps)
qed

lemma code_toLowerChar: "code (toLowerChar c) = lowerCode (code c)"
proof -
  have r: "0 \<le> (of_char c :: int)" "(of_char c :: int) < 256"
    by (simp_all add: of_char_def)
  show ?thesis
    using r by (auto simp: toLowerChar_def lowerCode_def code_def Let_def)
qed

lemma class_ok_lower: "toLowerChar c = x \<Longrightarrow> class_ok True [CChar x] c"
  using code_toLowerChar [of c] by (auto simp: class_ok_def Let_def)

lemma lit_Cons: "lit (x # w) = Seq (ch x) (lit w)"
  by (simp add: lit_def)

lemma lit_Nil: "lit [] = Eps"
  by (simp add: lit_def)

lemma rmatch_lit:
  "map toLowerChar cs = w \<Longrightarrow>
   rmatch True (lit w) (pos, prev, cs @ rest, caps) k =
     k (pos + length w, (if cs = [] then prev else Some (last cs)), rest, caps)"
proof (induction w arbitrary: cs pos prev)
  case Nil
  then show ?case by (simp add: lit_Nil)
next
  case (Cons x w)
  then obtain c cs' where cs: "cs = c # cs'" "toLowerChar c = x" "map toLowerChar cs' = w"
    by (cases cs) auto
  have ok: "class_ok True [CChar x] c" using cs(2) by (rule class_ok_lower)
  show ?case
    unfolding cs(1) lit_Cons
    using ok Cons.IH [OF cs(3), of "Suc pos" "Some c"]
    by (simp add: ch_def)
qed

lemma rmatch_alts_some:
  "r \<in> set rs \<Longrightarrow> rmatch ci r st k \<noteq> None \<Longrightarrow> rmatch ci (alts rs) st k \<noteq> None"
proof (induction rs rule: alts.induct)
  case 1
  then show ?case by simp
next
  case (2 r')
  then show ?case by simp
next
  case (3 r' r'' rs)
  then show ?case by (auto split: option.splits)
qed

lemma exec_from_first:
  "rmatch ci r (pos, prev, s, []) Some \<noteq> None \<Longrightarrow> exec_from ci r pos prev s \<noteq> None"
  by (cases s) (auto split: option.splits)

lemma invalidWords_match:
  assumes "w \<in> set denylist" "map toLowerChar s = w"
  shows "rx_test True pat_invalidWords s"
proof -
  let ?k = "\<lambda>st'. rmatch True (Seq Eol Eps) st' Some"
  have "rmatch True (lit w) (0, None, s @ [], []) ?k =
        ?k (0 + length w, (if s = [] then None else Some (last s)), [], [])"
    by (rule rmatch_lit [OF assms(2)])
  then have one: "rmatch True (lit w) (0, None, s, []) ?k \<noteq> None" by simp
  have "lit w \<in> set (map lit denylist)" using assms(1) by simp
  from rmatch_alts_some [OF this one]
  have "rmatch True pat_invalidWords (0, None, s, []) Some \<noteq> None"
    by (simp add: pat_invalidWords_def seqs_def)
  then show ?thesis
    unfolding rx_test_def rx_exec_def by (rule exec_from_first)
qed

lemma denylist_letters: "\<forall>w\<in>set denylist. \<forall>x\<in>set w. 97 \<le> code x \<and> code x \<le> 122"
  by code_simp

lemma lower_letter_not_space:
  "97 \<le> code (toLowerChar c) \<Longrightarrow> code (toLowerChar c) \<le> 122 \<Longrightarrow> \<not> isSpace c"
  unfolding code_toLowerChar by (auto simp: lowerCode_def isSpace_def Let_def split: if_splits)

lemma trim_no_space: "\<forall>c\<in>set s. \<not> isSpace c \<Longrightarrow> trim s = s"
proof -
  assume a: "\<forall>c\<in>set s. \<not> isSpace c"
  have d: "dropWhile isSpace t = t" if "\<forall>c\<in>set t. \<not> isSpace c" for t
    using that by (cases t) auto
  show ?thesis unfolding trim_def using a by (simp add: d)
qed

lemma denylist_rejected:
  assumes "map toLowerChar s \<in> set denylist"
  shows "\<not> isValidItemName s"
proof -
  define w where "w = map toLowerChar s"
  have w: "w \<in> set denylist" using assms by (simp add: w_def)
  have "\<forall>c\<in>set s. \<not> isSpace c"
  proof
    fix c assume "c \<in> set s"
    then have "toLowerChar c \<in> set w" by (auto simp: w_def)
    then have "97 \<le> code (toLowerChar c) \<and> code (toLowerChar c) \<le> 122"
      using denylist_letters w by blast
    then show "\<not> isSpace c" using lower_letter_not_space by blast
  qed
  then have t: "trim s = s" by (rule trim_no_space)
  have "rx_test True pat_invalidWords s"
    using invalidWords_match [OF w] by (simp add: w_def)
  then show ?thesis by (simp add: isValidItemName_def t)
qed

lemma parseReceiptText_metadata:
  "text \<noteq> [] \<Longrightarrow>
   r_merchant (parseReceiptText nd text) = findMerchant (preprocessText text) \<and>
   r_date (parseReceiptText nd text) =
     (case findDate (preprocessText text) of None \<Rightarrow> [] | Some d \<Rightarrow> nd d)"
  by (simp add: parseReceiptText_def extractMetadata_def Let_def)

lemma code_inj: "code c = code d \<Longrightarrow> c = d"
  by (simp add: code_def)

lemma class_ok_single:
  assumes "97 \<le> code x" "code x \<le> 122" "class_ok True [CChar x] c"
  shows "toLowerChar c = x"
proof -
  have "code (toLowerChar c) = code x"
    using assms unfolding code_toLowerChar
    by (auto simp: class_ok_def Let_def lowerCode_def upperCode_def split: if_splits)
  then show ?thesis by (rule code_inj)
qed

lemma rmatch_lit_inv:
  "\<forall>x\<in>set w. 97 \<le> code x \<and> code x \<le> 122 \<Longrightarrow>
   rmatch True (lit w) (pos, prev, s, caps) k \<noteq> None \<Longrightarrow> startsWith w s"
proof (induction w arbitrary: s pos prev)
  case Nil
  then show ?case by (simp add: startsWith_def)
next
  case (Cons x w)
  show ?case
  proof (cases s)
    case Nil
    then show ?thesis using Cons.prems(2) by (simp add: lit_Cons ch_def)
  next
    case (Cons c cs)
    have ok: "class_ok True [CChar x] c"
      using Cons.prems(2) unfolding Cons lit_Cons by (simp add: ch_def split: if_splits)
    then have c: "toLowerChar c = x" using Cons.prems(1) class_ok_single by simp
    have "rmatch True (lit w) (Suc pos, Some c, cs, caps) k \<noteq> None"
      using Cons.prems(2) ok unfolding Cons lit_Cons by (simp add: ch_def)
    then have "startsWith w cs" using Cons.IH Cons.prems(1) by simp
    then show ?thesis using c by (simp add: startsWith_def Cons)
  qed
qed

lemma rmatch_alts_inv:
  "rs \<noteq> [] \<Longrightarrow> rmatch ci (alts rs) st k \<noteq> None \<Longrightarrow> \<exists>r\<in>set rs. rmatch ci r st k \<noteq> None"
proof (induction rs rule: alts.induct)
  case 1
  then show ?case by simp
next
  case (2 r)
  then show ?case by simp
next
  case (3 r r' rs)
  then show ?case by (auto split: option.splits)
qed

lemma exec_from_Bol:
  "0 < pos \<Longrightarrow> exec_from ci (Seq Bol r) pos prev s = None"
  by (induction s arbitrary: pos prev) simp_all

lemma rx_exec_Bol:
  "rx_exec ci (Seq Bol r) s \<noteq> None \<Longrightarrow> rmatch ci r (0, None, s, []) Some \<noteq> None"
  unfolding rx_exec_def by (cases s) (auto simp: exec_from_Bol split: option.splits)

lemma startsWith_take:
  assumes "startsWith w s" "n \<le> length w"
  shows "take n w = take n (map toLowerChar s)"
proof -
  have "w = take (length w) (map toLowerChar s)"
    using assms(1) by (simp add: startsWith_def take_map)
  then have "take n w = take n (take (length w) (map toLowerChar s))" by simp
  also have "\<dots> = take n (map toLowerChar s)" using assms(2) by (simp add: min_def)
  finally show ?thesis .
qed

lemma startsWith_clash:
  "startsWith w1 s \<Longrightarrow> startsWith w2 s \<Longrightarrow>
   take (min (length w1) (length w2)) w1 = take (min (length w1) (length w2)) w2"
  using startsWith_take [of w1 s "min (length w1) (length w2)"]
    startsWith_take [of w2 s "min (length w1) (length w2)"]
  by simp

lemma lit_starts:
  "letters w \<Longrightarrow> rmatch True (lit w) (pos, prev, s, caps) k \<noteq> None \<Longrightarrow> startsWith w s"
  using rmatch_lit_inv [of w pos prev s caps k] by (simp add: letters_def)

lemma seqs_Cons: "seqs (r # rs) = Seq r (seqs rs)"
  by (simp add: seqs_def)

lemma seqs_lit_starts:
  "letters w \<Longrightarrow> rmatch True (seqs (lit w # rs)) (pos, prev, s, caps) k \<noteq> None \<Longrightarrow> startsWith w s"
  unfolding seqs_Cons rmatch.simps(7) by (rule lit_starts)

lemma anchored_alts:
  assumes "rx_exec True (seqs (Bol # alts rs # rest)) line \<noteq> None" "rs \<noteq> []"
  shows "\<exists>r\<in>set rs. rmatch True r (0, None, line, []) (\<lambda>st'. rmatch True (seqs rest) st' Some) \<noteq> None"
proof -
  have "rmatch True (Seq (alts rs) (seqs rest)) (0, None, line, []) Some \<noteq> None"
    using assms(1) unfolding seqs_Cons by (rule rx_exec_Bol)
  then have "rmatch True (alts rs) (0, None, line, []) (\<lambda>st'. rmatch True (seqs rest) st' Some) \<noteq> None"
    unfolding rmatch.simps(7) .
  from rmatch_alts_inv [OF assms(2) this] show ?thesis .
qed

lemma tax_starts:
  assumes "rx_exec True pat_tax line \<noteq> None"
  shows "startsWith ''tax'' line \<or> startsWith ''vat'' line \<or> startsWith ''gst'' line \<or>
         startsWith ''hst'' line \<or> startsWith ''sales'' line"
proof -
  have l: "letters ''tax''" "letters ''vat''" "letters ''gst''" "letters ''hst''" "letters ''sales''"
    by (simp_all add: letters_def code_def)
  obtain r k where r: "r \<in> set [lit ''tax'', lit ''vat'', lit ''gst'', lit ''hst'',
                               seqs [lit ''sales'', star space, lit ''tax'']]"
    and m: "rmatch True r (0, None, line, []) k \<noteq> None"
    using anchored_alts [OF assms [unfolded pat_tax_def]] by blast
  from r consider "r = lit ''tax''" | "r = lit ''vat''" | "r = lit ''gst''" | "r = lit ''hst''"
    | "r = seqs [lit ''sales'', star space, lit ''tax'']" by auto
  then show ?thesis
  proof cases
    case 1 then show ?thesis using m l(1) lit_starts by blast
  next
    case 2 then show ?thesis using m l(2) lit_starts by blast
  next
    case 3 then show ?thesis using m l(3) lit_starts by blast
  next
    case 4 then show ?thesis using m l(4) lit_starts by blast
  next
    case 5 then show ?thesis using m l(5) seqs_lit_starts by blast
  qed
qed

lemma tip_starts:
  assumes "rx_exec True pat_tip line \<noteq> None"
  shows "startsWith ''tip'' line \<or> startsWith ''gratuity'' line \<or> startsWith ''service'' line"
proof -
  have l: "letters ''tip''" "letters ''gratuity''" "letters ''service''"
    by (simp_all add: letters_def code_def)
  obtain r k where r: "r \<in> set [lit ''tip'', lit ''gratuity'',
                               seqs [lit ''service'', star space, lit ''charge'']]"
    and m: "rmatch True r (0, None, line, []) k \<noteq> None"
    using anchored_alts [OF assms [unfolded pat_tip_def]] by blast
  from r consider "r = lit ''tip''" | "r = lit ''gratuity''"
    | "r = seqs [lit ''service'', star space, lit ''charge'']" by auto
  then show ?thesis
  proof cases
    case 1 then show ?thesis using m l(1) lit_starts by blast
  next
    case 2 then show ?thesis using m l(2) lit_starts by blast
  next
    case 3 then show ?thesis using m l(3) seqs_lit_starts by blast
  qed
qed

lemma total_starts:
  assumes "rx_exec True pat_total line \<noteq> None"
  shows "startsWith ''total'' line \<or> startsWith ''amount'' line \<or> startsWith ''balance'' line \<or>
         startsWith ''grand'' line"
proof -
  have l: "letters ''total''" "letters ''amount''" "letters ''balance''" "letters ''grand''"
    by (simp_all add: letters_def code_def)
  obtain r k where r: "r \<in> set [lit ''total'',
             seqs [lit ''amount'', star space, lit ''due''],
             seqs [lit ''balance'', star space, lit ''due''],
             seqs [lit ''grand'', star space, lit ''total'']]"
    and m: "rmatch True r (0, None, line, []) k \<noteq> None"
    using anchored_alts [OF assms [unfolded pat_total_def]] by blast
  from r consider "r = lit ''total''" | "r = seqs [lit ''amount'', star space, lit ''due'']"
    | "r = seqs [lit ''balance'', star space, lit ''due'']"
    | "r = seqs [lit ''grand'', star space, lit ''total'']" by auto
  then show ?thesis
  proof cases
    case 1 then show ?thesis using m l(1) lit_starts by blast
  next
    case 2 then show ?thesis using m l(2) seqs_lit_starts by blast
  next
    case 3 then show ?thesis using m l(3) seqs_lit_starts by blast
  next
    case 4 then show ?thesis using m l(4) seqs_lit_starts by blast
  qed
qed

lemma subtotal_starts:
  assumes "rx_exec True pat_subtotal line \<noteq> None"
  shows "startsWith ''sub'' line \<or> startsWith ''before'' line \<or> startsWith ''net'' line \<or>
         startsWith ''pre'' line"
proof -
  have l: "letters ''sub''" "letters ''subttl''" "letters ''before''" "letters ''net''" "letters ''pre''"
    by (simp_all add: letters_def code_def)
  obtain r k where r: "r \<in> set [seqs [lit ''sub'', opt (Set [CChar CHR ''-'', CSpace]), lit ''total''],
             lit ''subttl'',
             seqs [lit ''before'', star space, lit ''tax''],
             lit ''net'',
             seqs [lit ''pre'', opt (Set [CChar CHR ''-'', CSpace]), lit ''tax'']]"
    and m: "rmatch True r (0, None, line, []) k \<noteq> None"
    using anchored_alts [OF assms [unfolded pat_subtotal_def]] by blast
  have sub: "startsWith ''subttl'' line \<Longrightarrow> startsWith ''sub'' line"
    using startsWith_take [of "''subttl''" line 3]
    by (auto simp: startsWith_def take_map)
  from r consider "r = seqs [lit ''sub'', opt (Set [CChar CHR ''-'', CSpace]), lit ''total'']"
    | "r = lit ''subttl''" | "r = seqs [lit ''before'', star space, lit ''tax'']"
    | "r = lit ''net''" | "r = seqs [lit ''pre'', opt (Set [CChar CHR ''-'', CSpace]), lit ''tax'']"
    by auto
  then show ?thesis
  proof cases
    case 1 then show ?thesis using m l(1) seqs_lit_starts by blast
  next
    case 2 then show ?thesis using m l(2) lit_starts sub by blast
  next
    case 3 then show ?thesis using m l(3) seqs_lit_starts by blast
  next
    case 4 then show ?thesis using m l(4) lit_starts by blast
  next
    case 5 then show ?thesis using m l(5) seqs_lit_starts by blast
  qed
qed

lemma no_clash:
  "startsWith w1 s \<Longrightarrow> startsWith w2 s \<Longrightarrow>
   take (min (length w1) (length w2)) w1 \<noteq> take (min (length w1) (length w2)) w2 \<Longrightarrow> False"
  using startsWith_clash by blast

lemma tax_tip_exclusive:
  "rx_exec True pat_tax line \<noteq> None \<Longrightarrow> rx_exec True pat_tip line \<noteq> None \<Longrightarrow> False"
  by (drule tax_starts, drule tip_starts) (auto elim: no_clash)

lemma tax_total_exclusive:
  "rx_exec True pat_tax line \<noteq> None \<Longrightarrow> rx_exec True pat_total line \<noteq> None \<Longrightarrow> False"
  by (drule tax_starts, drule total_starts) (auto elim: no_clash)

lemma tax_subtotal_exclusive:
  "rx_exec True pat_tax line \<noteq> None \<Longrightarrow> rx_exec True pat_subtotal line \<noteq> None \<Longrightarrow> False"
  by (drule tax_starts, drule subtotal_starts) (auto elim: no_clash)

lemma tip_total_exclusive:
  "rx_exec True pat_tip line \<noteq> None \<Longrightarrow> rx_exec True pat_total line \<noteq> None \<Longrightarrow> False"
  by (drule tip_starts, drule total_starts) (auto elim: no_clash)

lemma tip_subtotal_exclusive:
  "rx_exec True pat_tip line \<noteq> None \<Longrightarrow> rx_exec True pat_subtotal line \<noteq> None \<Longrightarrow> False"
  by (drule tip_starts, drule subtotal_starts) (auto elim: no_clash)

lemma total_subtotal_exclusive:
  "rx_exec True pat_total line \<noteq> None \<Longrightarrow> rx_exec True pat_subtotal line \<noteq> None \<Longrightarrow> False"
  by (drule total_starts, drule subtotal_starts) (auto elim: no_clash)

text \<open>
  C10. For every input string, every item in the items list returned by
  parseReceiptText has a price strictly greater than 0: each rule that produces an item
  requires the parsed price to be positive.
\<close>

theorem parseReceiptText_items_positive:
  "\<forall>it\<in>set (r_items (parseReceiptText nd text)). js_gt (price it) (Fin 0)"
  using extractItems_price [of "preprocessText text"] by (simp add: parseReceiptText_items)

theorem parseReceiptText_items_positive_witness:
  "r_items (parseReceiptText (\<lambda>d. d) ''Soda $3.00'') =
     [\<lparr>name = ''Soda'', price = Fin 3, quantity = Fin 1, raw = ''Soda $3.00'',
       confidence = Fin (85 / 100)\<rparr>] \<and>
   js_gt (Fin 3) (Fin 0)"
proof -
  have e: "extractItems (preprocessText ''Soda $3.00'') =
     [\<lparr>name = ''Soda'', price = Fin 3, quantity = Fin 1, raw = ''Soda $3.00'',
       confidence = Fin (85 / 100)\<rparr>]"
    by code_simp
  then have i: "r_items (parseReceiptText (\<lambda>d. d) ''Soda $3.00'') =
     [\<lparr>name = ''Soda'', price = Fin 3, quantity = Fin 1, raw = ''Soda $3.00'',
       confidence = Fin (85 / 100)\<rparr>]"
    by (simp add: parseReceiptText_items)
  show ?thesis
    using parseReceiptText_items_positive [of "\<lambda>d. d" "''Soda $3.00''"] i by simp
qed

text \<open>
  C3. extractSummary keeps the last occurrence of each summary kind over the classified
  line sequence; then, if the subtotal is 0 and the total and the tax are greater than
  0, the subtotal becomes total - tax - tip, which may be negative; in every other case
  the folded values are returned unchanged.
\<close>

theorem extractSummary_last_and_inferred:
  "extractSummary lines =
     (let cs = map categorizeLine lines;
          tx = lastOf taxOf cs; tp = lastOf tipOf cs;
          tot = lastOf totalOf cs; sub = lastOf subtotalOf cs
      in if js_eq sub (Fin 0) \<and> js_gt tot (Fin 0) \<and> js_gt tx (Fin 0)
         then \<lparr>tax = tx, tip = tp, total = tot, subtotal = js_sub (js_sub tot tx) tp\<rparr>
         else \<lparr>tax = tx, tip = tp, total = tot, subtotal = sub\<rparr>) \<and>
   extractSummary [''Tax: 10.00'', ''Total: 5.00''] =
     \<lparr>tax = Fin 10, tip = Fin 0, total = Fin 5, subtotal = Fin (- 5)\<rparr>"
proof -
  have a: "extractSummary lines =
     (let cs = map categorizeLine lines;
          tx = lastOf taxOf cs; tp = lastOf tipOf cs;
          tot = lastOf totalOf cs; sub = lastOf subtotalOf cs
      in if js_eq sub (Fin 0) \<and> js_gt tot (Fin 0) \<and> js_gt tx (Fin 0)
         then \<lparr>tax = tx, tip = tp, total = tot, subtotal = js_sub (js_sub tot tx) tp\<rparr>
         else \<lparr>tax = tx, tip = tp, total = tot, subtotal = sub\<rparr>)"
    unfolding extractSummary_def foldSummary_last inferSubtotal_def Let_def by simp
  have b: "extractSummary [''Tax: 10.00'', ''Total: 5.00''] =
     \<lparr>tax = Fin 10, tip = Fin 0, total = Fin 5, subtotal = Fin (- 5)\<rparr>"
    by code_simp
  show ?thesis using a b by blast
qed

text \<open>
  C1. The claim puts the summary rules before the dotted-item rule, so that a line made
  of a summary label and an amount is never an item. categorizeLine tries the
  dotted-item rule first: a tax line and a total line whose amount is set off by three
  spaces, each matched by its own summary pattern, come out as items, named after the
  label and priced at the amount, with the confidence of the dotted rule.
\<close>

theorem categorizeLine_summary_line_as_item:
  "rx_test True pat_tax ''Tax (8%)   $3.16'' \<and>
   categorizeLine ''Tax (8%)   $3.16'' = Item ''Tax (8%)'' (Fin (316 / 100)) (Fin 1) (Fin (92 / 100)) \<and>
   rx_test True pat_total ''Total:   $50.66'' \<and>
   categorizeLine ''Total:   $50.66'' = Item ''Total:'' (Fin (5066 / 100)) (Fin 1) (Fin (92 / 100))"
  by code_simp

text \<open>
  The order that the source does keep: the summary rules (Tax, Tip, Total, Subtotal) come
  before the standard item rule and the fallback trailing-price rule. A line that the
  dotted-item rule leaves alone and that matches a summary pattern is classified as that
  summary kind, with the amount of the match. No line matches two of the summary
  patterns.
\<close>

theorem categorizeLine_summary_before_items:
  assumes "dottedRule line = None"
  shows "(\<forall>m. rx_exec True pat_tax line = Some m \<longrightarrow>
            categorizeLine line = Tax (parsePrice (grp m 1))) \<and>
         (\<forall>m. rx_exec True pat_tip line = Some m \<longrightarrow>
            categorizeLine line = Tip (parsePrice (grp m 1))) \<and>
         (\<forall>m. rx_exec True pat_total line = Some m \<longrightarrow>
            categorizeLine line = Total (parsePrice (grp m 1))) \<and>
         (\<forall>m. rx_exec True pat_subtotal line = Some m \<longrightarrow>
            categorizeLine line = Subtotal (parsePrice (grp m 1)))"
proof -
  have tax: "categorizeLine line = Tax (parsePrice (grp m 1))"
    if "rx_exec True pat_tax line = Some m" for m
    using that assms by (simp add: categorizeLine_def summaryRule_def)
  have tip: "categorizeLine line = Tip (parsePrice (grp m 1))"
    if "rx_exec True pat_tip line = Some m" for m
  proof -
    have "rx_exec True pat_tax line = None"
      using that tax_tip_exclusive [of line] by (cases "rx_exec True pat_tax line") auto
    then show ?thesis using that assms by (simp add: categorizeLine_def summaryRule_def)
  qed
  have total: "categorizeLine line = Total (parsePrice (grp m 1))"
    if "rx_exec True pat_total line = Some m" for m
  proof -
    have "rx_exec True pat_tax line = None"
      using that tax_total_exclusive [of line] by (cases "rx_exec True pat_tax line") auto
    moreover have "rx_exec True pat_tip line = None"
      using that tip_total_exclusive [of line] by (cases "rx_exec True pat_tip line") auto
    ultimately
    show ?thesis using that assms by (simp add: categorizeLine_def summaryRule_def)
  qed
  have subtotal: "categorizeLine line = Subtotal (parsePrice (grp m 1))"
    if "rx_exec True pat_subtotal line = Some m" for m
  proof -
    have "rx_exec True pat_tax line = None"
      using that tax_subtotal_exclusive [of line] by (cases "rx_exec True pat_tax line") auto
    moreover have "rx_exec True pat_tip line = None"
      using that tip_subtotal_exclusive [of line] by (cases "rx_exec True pat_tip line") auto
    moreover have "rx_exec True pat_total line = None"
      using that total_subtotal_exclusive [of line] by (cases "rx_exec True pat_total line") auto
    ultimately show ?thesis using that assms by (simp add: categorizeLine_def summaryRule_def)
  qed
  show ?thesis using tax tip total subtotal by blast
qed

theorem categorizeLine_summary_before_items_witness:
  "dottedRule ''Tax: $3.64'' = None \<and> categorizeLine ''Tax: $3.64'' = Tax (Fin (364 / 100))"
proof -
  have d: "dottedRule ''Tax: $3.64'' = None" by code_simp
  have m: "rx_exec True pat_tax ''Tax: $3.64'' = Some (0, 10, [(1, ''3.64'')])" by code_simp
  have p: "parsePrice (grp (0, 10, [(1, ''3.64'')]) 1) = Fin (364 / 100)" by code_simp
  show ?thesis
    using categorizeLine_summary_before_items [OF d] d m p by simp
qed

text \<open>
  C6, as stated, fails for "Main St 123": the pattern for a street name with a number
  takes one street token followed by digits only, and none of the other checks applies.
\<close>

theorem isValidItemName_address_counterexample:
  "isValidItemName ''Main St 123''"
  by code_simp

text \<open>
  C6, amended. Item-name validation rejects every string that is, up to the case of its
  letters, one of the sixteen words of the denylist; it rejects the address forms
  "123 Main St" and "St 123" (one street token followed by a number); and it accepts
  "Chicken Wings", which is what stripping the quantity from "2 Chicken Wings" leaves.
\<close>

theorem isValidItemName_rules:
  "(map toLowerChar s \<in> set denylist \<longrightarrow> \<not> isValidItemName s) \<and>
   \<not> isValidItemName ''123 Main St'' \<and>
   \<not> isValidItemName ''St 123'' \<and>
   isValidItemName ''Chicken Wings'' \<and>
   removeQuantityFromName ''2 Chicken Wings'' (extractQuantity ''2 Chicken Wings'') = ''Chicken Wings''"
proof -
  have a: "map toLowerChar s \<in> set denylist \<longrightarrow> \<not> isValidItemName s"
    using denylist_rejected by blast
  have b: "\<not> isValidItemName ''123 Main St''" by code_simp
  have c: "\<not> isValidItemName ''St 123''" by code_simp
  have d: "isValidItemName ''Chicken Wings''" by code_simp
  have e: "removeQuantityFromName ''2 Chicken Wings'' (extractQuantity ''2 Chicken Wings'') =
           ''Chicken Wings''" by code_simp
  show ?thesis using a b c d e by blast
qed

theorem isValidItemName_rules_witness:
  "map toLowerChar ''SubTotal'' \<in> set denylist \<and> \<not> isValidItemName ''SubTotal''"
proof -
  have h: "map toLowerChar ''SubTotal'' \<in> set denylist" by code_simp
  show ?thesis using isValidItemName_rules [of "''SubTotal''"] h by blast
qed

text \<open>
  C8 against the source. parseReceiptText hands the filtered lines to extractMetadata:
  the skip pattern has removed the line "Date: 1/2/24" before the date is sought, so
  the receipt has no date, although the unfiltered lines hold one (and extractMetadata
  strips the label "Date:" that can never reach it).
\<close>

theorem parseReceiptText_metadata_filtered:
  "preprocessText (''Date: 1/2/24'' @ [CHR 0x0A] @ ''Tea 2.00'') = [''Tea 2.00''] \<and>
   allLines (''Date: 1/2/24'' @ [CHR 0x0A] @ ''Tea 2.00'') = [''Date: 1/2/24'', ''Tea 2.00''] \<and>
   r_date (parseReceiptText nd (''Date: 1/2/24'' @ [CHR 0x0A] @ ''Tea 2.00'')) = [] \<and>
   date (extractMetadata nd (allLines (''Date: 1/2/24'' @ [CHR 0x0A] @ ''Tea 2.00''))) = nd ''1/2/24''"
proof -
  have p: "preprocessText (''Date: 1/2/24'' @ [CHR 0x0A] @ ''Tea 2.00'') = [''Tea 2.00'']"
    by code_simp
  have a: "allLines (''Date: 1/2/24'' @ [CHR 0x0A] @ ''Tea 2.00'') = [''Date: 1/2/24'', ''Tea 2.00'']"
    by code_simp
  have f: "findDate [''Tea 2.00''] = None" by code_simp
  have g: "findDate [''Date: 1/2/24'', ''Tea 2.00''] = Some ''1/2/24''" by code_simp
  have ne: "''Date: 1/2/24'' @ [CHR 0x0A] @ ''Tea 2.00'' \<noteq> []" by simp
  have d: "r_date (parseReceiptText nd (''Date: 1/2/24'' @ [CHR 0x0A] @ ''Tea 2.00'')) = []"
    using parseReceiptText_metadata [OF ne, of nd] by (simp only: p f option.case)
  have e: "date (extractMetadata nd (allLines (''Date: 1/2/24'' @ [CHR 0x0A] @ ''Tea 2.00''))) =
           nd ''1/2/24''"
    unfolding a by (simp add: extractMetadata_def g del: findDate.simps)
  show ?thesis using p a d e by blast
qed

end
